theory Spec2Isabelle
  imports Complex_Main "HOL-Library.Multiset"
begin

section \<open>Strings of the host language\<close>

text \<open>
  The program is TypeScript. A string is modelled as a list of characters, each character
  standing for one code unit below 256 (Latin-1). On that range the functions of this
  section compute what the corresponding \<open>String.prototype\<close> methods compute.
\<close>

text \<open>White space of \<open>trim\<close> and of the class \<open>\s\<close>: TAB, LF, VT, FF, CR, SP, NBSP.\<close>

definition isWhiteSpace :: "char \<Rightarrow> bool" where
  "isWhiteSpace c = (of_char c \<in> {9, 10, 11, 12, 13, 32, 160 :: nat})"

text \<open>\<open>toLowerCase\<close>: the letters A-Z and the upper-case letters of Latin-1 move up by 32.\<close>

definition toLowerChar :: "char \<Rightarrow> char" where
  "toLowerChar c =
     (let n = of_char c :: nat
      in if (65 \<le> n \<and> n \<le> 90) \<or> (192 \<le> n \<and> n \<le> 222 \<and> n \<noteq> 215)
         then char_of (n + 32) else c)"

definition toLowerCase :: "string \<Rightarrow> string" where
  "toLowerCase s = map toLowerChar s"

definition trim :: "string \<Rightarrow> string" where
  "trim s = rev (dropWhile isWhiteSpace (rev (dropWhile isWhiteSpace s)))"

fun startsWith :: "string \<Rightarrow> string \<Rightarrow> bool" where
  "startsWith s [] = True"
| "startsWith [] (p # ps) = False"
| "startsWith (c # cs) (p # ps) = (c = p \<and> startsWith cs ps)"

text \<open>\<open>s.includes(sub)\<close>: \<open>sub\<close> occurs in \<open>s\<close> as a contiguous substring.\<close>

fun includesStr :: "string \<Rightarrow> string \<Rightarrow> bool" where
  "includesStr [] sub = (sub = [])"
| "includesStr (c # cs) sub = (startsWith (c # cs) sub \<or> includesStr cs sub)"

text \<open>\<open>s.split(sep)\<close> for a separator of one character; the empty string gives \<open>[""]\<close>.\<close>

fun split :: "char \<Rightarrow> string \<Rightarrow> string list" where
  "split sep [] = [[]]"
| "split sep (c # cs) =
     (if c = sep then [] # split sep cs
      else (case split sep cs of [] \<Rightarrow> [[c]] | w # ws \<Rightarrow> (c # w) # ws))"

section \<open>Data model\<close>

record CSVData =
  headers :: "string list"
  rows :: "string list list"

section \<open>The server's loader: \<open>parseCSV\<close>\<close>

text \<open>
  \<open>parseCSVLine\<close> scans one logical line. The loop variable \<open>i\<close> of the source is the
  position of the head of the first argument; \<open>i++\<close> inside the body (an escaped quote)
  drops one more character.
\<close>

fun parseCSVLine_loop :: "string \<Rightarrow> string list \<Rightarrow> string \<Rightarrow> bool \<Rightarrow> string list" where
  "parseCSVLine_loop [] result current inQuotes = result @ [trim current]"
| "parseCSVLine_loop (c # rest) result current inQuotes =
     (if c = CHR 0x22 then
        (case rest of
           d # rest' \<Rightarrow>
             if inQuotes \<and> d = CHR 0x22
             then parseCSVLine_loop rest' result (current @ [CHR 0x22]) inQuotes
             else parseCSVLine_loop rest result current (\<not> inQuotes)
         | [] \<Rightarrow> parseCSVLine_loop rest result current (\<not> inQuotes))
      else if c = CHR '','' \<and> \<not> inQuotes then
        parseCSVLine_loop rest (result @ [trim current]) [] inQuotes
      else parseCSVLine_loop rest result (current @ [c]) inQuotes)"

definition parseCSVLine :: "string \<Rightarrow> string list" where
  "parseCSVLine line = parseCSVLine_loop line [] [] False"

definition countQuotes :: "string \<Rightarrow> nat" where
  "countQuotes s = length (filter (\<lambda>c. c = CHR 0x22) s)"

text \<open>
  \<open>parseCSVRow\<close> joins physical lines while the number of quotes seen is odd and a next
  line exists. The loop state is \<open>(currentLine, lineIndex, quoteCount)\<close>.
\<close>

function parseCSVRow_loop :: "string list \<Rightarrow> string \<Rightarrow> nat \<Rightarrow> nat \<Rightarrow> string \<times> nat" where
  "parseCSVRow_loop lines currentLine lineIndex quoteCount =
     (if quoteCount mod 2 \<noteq> 0 \<and> lineIndex + 1 < length lines
      then parseCSVRow_loop lines
             (currentLine @ [CHR 0x0A] @ lines ! (lineIndex + 1))
             (lineIndex + 1)
             (quoteCount + countQuotes (lines ! (lineIndex + 1)))
      else (currentLine, lineIndex))"
  by pat_completeness auto
termination
  by (relation "measure (\<lambda>(lines, currentLine, lineIndex, quoteCount). length lines - lineIndex)")
     auto

declare parseCSVRow_loop.simps [simp del]

text \<open>The result is \<open>(row, nextIndex)\<close>. It is called with \<open>startIndex < length lines\<close> only.\<close>

definition parseCSVRow :: "string list \<Rightarrow> nat \<Rightarrow> string list \<times> nat" where
  "parseCSVRow lines startIndex =
     (let (currentLine, lineIndex) =
            parseCSVRow_loop lines (lines ! startIndex) startIndex (countQuotes (lines ! startIndex))
      in (parseCSVLine currentLine, lineIndex + 1))"

text \<open>
  \<open>while (row.length < headers.length) row.push('')\<close> followed by
  \<open>row.slice(0, headers.length)\<close>.
\<close>

definition padRow :: "nat \<Rightarrow> string list \<Rightarrow> string list" where
  "padRow w row = row @ replicate (w - length row) []"

definition normalizeRow :: "nat \<Rightarrow> string list \<Rightarrow> string list" where
  "normalizeRow w row = take w (padRow w row)"

lemma parseCSVRow_loop_mono: "lineIndex \<le> snd (parseCSVRow_loop lines currentLine lineIndex quoteCount)"
proof (induction lines currentLine lineIndex quoteCount rule: parseCSVRow_loop.induct)
  case (1 lines currentLine lineIndex quoteCount)
  show ?case
  proof (cases "quoteCount mod 2 \<noteq> 0 \<and> lineIndex + 1 < length lines")
    case True
    then have "Suc lineIndex \<le> snd (parseCSVRow_loop lines
             (currentLine @ [CHR 0x0A] @ lines ! (lineIndex + 1)) (lineIndex + 1)
             (quoteCount + countQuotes (lines ! (lineIndex + 1))))"
      using 1 by simp
    moreover have "parseCSVRow_loop lines currentLine lineIndex quoteCount =
        parseCSVRow_loop lines
             (currentLine @ [CHR 0x0A] @ lines ! (lineIndex + 1)) (lineIndex + 1)
             (quoteCount + countQuotes (lines ! (lineIndex + 1)))"
      using True by (subst parseCSVRow_loop.simps) simp
    ultimately show ?thesis by simp
  next
    case False
    then show ?thesis
      by (subst parseCSVRow_loop.simps) auto
  qed
qed

lemma parseCSVRow_loop_bound:
  "lineIndex < length lines \<Longrightarrow>
   snd (parseCSVRow_loop lines currentLine lineIndex quoteCount) < length lines"
proof (induction lines currentLine lineIndex quoteCount rule: parseCSVRow_loop.induct)
  case (1 lines currentLine lineIndex quoteCount)
  show ?case
  proof (cases "quoteCount mod 2 \<noteq> 0 \<and> lineIndex + 1 < length lines")
    case True
    then have "snd (parseCSVRow_loop lines
             (currentLine @ [CHR 0x0A] @ lines ! (lineIndex + 1)) (lineIndex + 1)
             (quoteCount + countQuotes (lines ! (lineIndex + 1)))) < length lines"
      using 1 by simp
    moreover have "parseCSVRow_loop lines currentLine lineIndex quoteCount =
        parseCSVRow_loop lines
             (currentLine @ [CHR 0x0A] @ lines ! (lineIndex + 1)) (lineIndex + 1)
             (quoteCount + countQuotes (lines ! (lineIndex + 1)))"
      using True by (subst parseCSVRow_loop.simps) simp
    ultimately show ?thesis by simp
  next
    case False
    with 1(2) show ?thesis
      by (subst parseCSVRow_loop.simps) auto
  qed
qed

lemma parseCSVRow_next: "startIndex < snd (parseCSVRow lines startIndex)"
proof -
  obtain cl li where e:
    "parseCSVRow_loop lines (lines ! startIndex) startIndex (countQuotes (lines ! startIndex)) = (cl, li)"
    by (cases "parseCSVRow_loop lines (lines ! startIndex) startIndex (countQuotes (lines ! startIndex))")
  have "startIndex \<le> li"
    using parseCSVRow_loop_mono [of startIndex lines "lines ! startIndex" "countQuotes (lines ! startIndex)"] e
    by simp
  then show ?thesis by (simp add: parseCSVRow_def e)
qed

text \<open>
  The \<open>while (i < lines.length)\<close> loop of \<open>parseCSV\<close>, with state \<open>(i, rows)\<close>.
\<close>

function parseCSV_loop :: "string list \<Rightarrow> string list \<Rightarrow> nat \<Rightarrow> string list list \<Rightarrow> string list list" where
  "parseCSV_loop lines hdrs i rws =
     (if i < length lines then
        (if trim (lines ! i) = [] then parseCSV_loop lines hdrs (i + 1) rws
         else
           (let (row, nextIndex) = parseCSVRow lines i
            in parseCSV_loop lines hdrs nextIndex
                 (if length row > 0 then rws @ [normalizeRow (length hdrs) row] else rws)))
      else rws)"
  by pat_completeness auto
termination
proof (relation "measure (\<lambda>(lines, hdrs, i, rws). length lines - i)", goal_cases)
  case 1
  show ?case by simp
next
  case (2 lines hdrs i rws)
  then show ?case by simp
next
  case (3 lines hdrs i rws x xa y)
  have a: "i < snd (parseCSVRow lines i)" by (rule parseCSVRow_next)
  have b: "snd (parseCSVRow lines i) \<le> length lines"
    using parseCSVRow_loop_bound [of i lines "lines ! i" "countQuotes (lines ! i)"] 3(1)
    by (auto simp add: parseCSVRow_def split: prod.splits)
  from 3 have c: "y = snd (parseCSVRow lines i)" by (metis snd_conv)
  from 3(1) a b show ?case unfolding c by simp
qed

declare parseCSV_loop.simps [simp del]

text \<open>
  \<open>csvText.split('\n')\<close> never returns the empty array, so the guard
  \<open>lines.length === 0\<close> of the source is kept as it stands although it cannot fire.
\<close>

definition parseCSV :: "string \<Rightarrow> CSVData" where
  "parseCSV csvText =
     (let lines = split (CHR 0x0A) csvText
      in if length lines = 0 then \<lparr>headers = [], rows = []\<rparr>
         else (let hdrs = parseCSVLine (lines ! 0)
               in \<lparr>headers = hdrs, rows = parseCSV_loop lines hdrs 1 []\<rparr>))"

section \<open>The client's loader: \<open>loadCSVData\<close>\<close>

text \<open>
  \<open>loadCSVData\<close> hands the download and the tokenising to the library Papa Parse and
  builds the table in the \<open>complete\<close> callback. The model is that callback, applied to
  \<open>results.data\<close>; \<open>reject(new Error(m))\<close> is the value \<open>Inl (Error m)\<close>.
\<close>

datatype error = Error string

definition loadCSVData_complete :: "string list list \<Rightarrow> error + CSVData" where
  "loadCSVData_complete data =
     (if length data = 0 then Inl (Error ''No data found in CSV'')
      else
        (let hdrs = map trim (data ! 0);
             rws = map (\<lambda>row. map (\<lambda>cell. if cell \<noteq> [] then trim cell else [])
                                  (normalizeRow (length hdrs) row))
                       (filter (\<lambda>row. \<exists>cell \<in> set row. cell \<noteq> [] \<and> trim cell \<noteq> [])
                               (drop 1 data))
         in Inr \<lparr>headers = hdrs, rows = rws\<rparr>))"

section \<open>Regular expressions of the host language\<close>

text \<open>
  The engine finds its clauses with \<open>String.prototype.match\<close> and regular expression
  literals. These are backtracking matchers: \<open>matches r s\<close> lists, in the order in which
  backtracking tries them, the ways in which \<open>r\<close> matches a prefix of \<open>s\<close>, each with the
  capture groups it sets and the rest of \<open>s\<close>. A greedy quantifier lists the longest
  repetition first, a lazy one the shortest; an alternative lists its left branch first.
  Only the constructs that the literals of the source use are modelled; every quantified
  atom is a character class.
\<close>

datatype charClass = Space | WordChar | Digit | AnyChar | OneOf string

definition isWordChar :: "char \<Rightarrow> bool" where
  "isWordChar c =
     (let n = of_char c :: nat
      in (48 \<le> n \<and> n \<le> 57) \<or> (65 \<le> n \<and> n \<le> 90) \<or> n = 95 \<or> (97 \<le> n \<and> n \<le> 122))"

definition isDigit :: "char \<Rightarrow> bool" where
  "isDigit c = (let n = of_char c :: nat in 48 \<le> n \<and> n \<le> 57)"

text \<open>\<open>\s\<close>, \<open>\w\<close>, \<open>\d\<close>, the dot (any character but a line terminator) and \<open>[...]\<close>.\<close>

fun classHas :: "charClass \<Rightarrow> char \<Rightarrow> bool" where
  "classHas Space c = isWhiteSpace c"
| "classHas WordChar c = isWordChar c"
| "classHas Digit c = isDigit c"
| "classHas AnyChar c = (c \<noteq> CHR 0x0A \<and> c \<noteq> CHR 0x0D)"
| "classHas (OneOf cs) c = (c \<in> set cs)"

datatype regex =
    Lit string
  | One charClass
  | Plus charClass
  | PlusLazy charClass
  | StarLazy charClass
  | Seq regex regex
  | Alt regex regex
  | Opt regex
  | Group nat regex
  | EndOfInput

type_synonym captures = "(nat \<times> string) list"

text \<open>
  All literals carry the flag \<open>i\<close>: literal text is compared ignoring case. \<open>Opt r\<close> is
  the greedy \<open>(?:r)?\<close>; \<open>EndOfInput\<close> is \<open>$\<close> without the flag \<open>m\<close>.
\<close>

primrec matches :: "regex \<Rightarrow> string \<Rightarrow> (captures \<times> string) list" where
  "matches (Lit l) s =
     (if length l \<le> length s \<and> toLowerCase (take (length l) s) = toLowerCase l
      then [([], drop (length l) s)] else [])"
| "matches (One cl) s =
     (case s of [] \<Rightarrow> [] | c # cs \<Rightarrow> if classHas cl c then [([], cs)] else [])"
| "matches (Plus cl) s =
     map (\<lambda>k. ([], drop k s)) (rev [1 ..< Suc (length (takeWhile (classHas cl) s))])"
| "matches (PlusLazy cl) s =
     map (\<lambda>k. ([], drop k s)) [1 ..< Suc (length (takeWhile (classHas cl) s))]"
| "matches (StarLazy cl) s =
     map (\<lambda>k. ([], drop k s)) [0 ..< Suc (length (takeWhile (classHas cl) s))]"
| "matches (Seq r1 r2) s =
     concat (map (\<lambda>(c1, s1). map (\<lambda>(c2, s2). (c1 @ c2, s2)) (matches r2 s1)) (matches r1 s))"
| "matches (Alt r1 r2) s = matches r1 s @ matches r2 s"
| "matches (Opt r) s = filter (\<lambda>(c, s1). s1 \<noteq> s) (matches r s) @ [([], s)]"
| "matches (Group k r) s =
     map (\<lambda>(c, s1). (c @ [(k, take (length s - length s1) s)], s1)) (matches r s)"
| "matches EndOfInput s = (if s = [] then [([], s)] else [])"

text \<open>
  \<open>s.match(r)\<close> for a literal without the flag \<open>g\<close>: the first way of matching at the
  leftmost position that has one, or \<open>null\<close> (here \<open>None\<close>). The result pairs each
  group that took part with the text it captured; a group that took no part is
  \<open>undefined\<close> (\<open>None\<close>).
\<close>

fun regexMatch :: "regex \<Rightarrow> string \<Rightarrow> captures option" where
  "regexMatch r [] = (case matches r [] of [] \<Rightarrow> None | (c, s1) # _ \<Rightarrow> Some c)"
| "regexMatch r (x # xs) =
     (case matches r (x # xs) of [] \<Rightarrow> regexMatch r xs | (c, s1) # _ \<Rightarrow> Some c)"

declare regexMatch.simps [simp del]

text \<open>\<open>m[k]\<close> for a match \<open>m\<close> and a group number \<open>k\<close>.\<close>

definition capture :: "captures \<Rightarrow> nat \<Rightarrow> string option" where
  "capture m k = map_of m k"

text \<open>\<open>setsGroup r k\<close>: by the shape of \<open>r\<close>, every match of \<open>r\<close> sets group \<open>k\<close>.\<close>

fun setsGroup :: "regex \<Rightarrow> nat \<Rightarrow> bool" where
  "setsGroup (Group j r) k = (j = k \<or> setsGroup r k)"
| "setsGroup (Seq r1 r2) k = (setsGroup r1 k \<or> setsGroup r2 k)"
| "setsGroup (Alt r1 r2) k = (setsGroup r1 k \<and> setsGroup r2 k)"
| "setsGroup _ k = False"

fun seqs :: "regex list \<Rightarrow> regex" where
  "seqs [] = Lit []"
| "seqs [r] = r"
| "seqs (r # rs) = Seq r (seqs rs)"

text \<open>\<^verbatim>\<open>/select\s+(.*?)\s+from/i\<close>\<close>

definition selectRe :: regex where
  "selectRe = seqs [Lit ''select'', Plus Space, Group 1 (StarLazy AnyChar), Plus Space, Lit ''from'']"

text \<open>\<^verbatim>\<open>/where\s+(.+?)(?:\s+order\s+by|\s+limit|$)/i\<close>\<close>

definition whereRe :: regex where
  "whereRe = seqs [Lit ''where'', Plus Space, Group 1 (PlusLazy AnyChar),
     Alt (seqs [Plus Space, Lit ''order'', Plus Space, Lit ''by''])
         (Alt (seqs [Plus Space, Lit ''limit'']) EndOfInput)]"

text \<open>\<^verbatim>\<open>/(\w+)\s+like\s+['"](.+)['"]/i\<close>\<close>

definition likeRe :: regex where
  "likeRe = seqs [Group 1 (Plus WordChar), Plus Space, Lit ''like'', Plus Space,
     One (OneOf [CHR 0x27, CHR 0x22]), Group 2 (Plus AnyChar), One (OneOf [CHR 0x27, CHR 0x22])]"

text \<open>\<^verbatim>\<open>/order\s+by\s+(\w+)(?:\s+(asc|desc))?/i\<close>\<close>

definition orderRe :: regex where
  "orderRe = seqs [Lit ''order'', Plus Space, Lit ''by'', Plus Space, Group 1 (Plus WordChar),
     Opt (Seq (Plus Space) (Group 2 (Alt (Lit ''asc'') (Lit ''desc''))))]"

text \<open>\<^verbatim>\<open>/limit\s+(\d+)/i\<close>\<close>

definition limitRe :: regex where
  "limitRe = seqs [Lit ''limit'', Plus Space, Group 1 (Plus Digit)]"

section \<open>Numbers, comparison and sorting of the host language\<close>

text \<open>
  \<open>parseFloat\<close> skips leading white space and reads the longest prefix that is a decimal
  literal: an optional sign, then \<open>Infinity\<close> or digits with an optional fraction and an
  optional exponent. The result \<open>NaN\<close> is \<open>None\<close>. The result is the Number value of the
  literal's mathematical value: the nearest binary64 number, ties going to the even
  significand, and an infinity from \<open>2^1024 - 2^970\<close> on. (For a literal of more than 20
  significant digits the language lets the host round from the first 20 digits; the
  model rounds the exact value, as the current engines do.) A negative zero is kept as
  \<open>0\<close>: the two compare equal.
\<close>

datatype number = NegInfinity | Finite rat | PosInfinity

definition digitValue :: "char \<Rightarrow> nat" where
  "digitValue c = of_char c - 48"

definition decimalValue :: "string \<Rightarrow> nat" where
  "decimalValue ds = foldl (\<lambda>n c. 10 * n + digitValue c) 0 ds"

text \<open>The exponent part \<open>e\<close>, \<open>e+\<close> or \<open>e-\<close> followed by at least one digit; 0 when absent.\<close>

definition exponentValue :: "string \<Rightarrow> int" where
  "exponentValue s =
     (case s of
        [] \<Rightarrow> 0
      | c # r \<Rightarrow>
          if c = CHR ''e'' \<or> c = CHR ''E'' then
            (case r of
               [] \<Rightarrow> 0
             | d # r' \<Rightarrow>
                 if d = CHR ''+'' then int (decimalValue (takeWhile isDigit r'))
                 else if d = CHR ''-'' then - int (decimalValue (takeWhile isDigit r'))
                 else int (decimalValue (takeWhile isDigit r)))
          else 0)"

text \<open>The number of binary digits of a positive integer.\<close>

function bitLength :: "int \<Rightarrow> int" where
  "bitLength n = (if n \<le> 0 then 0 else 1 + bitLength (n div 2))"
  by pat_completeness auto
termination
  by (relation "measure nat") auto

declare bitLength.simps [simp del]

definition pow2 :: "int \<Rightarrow> rat" where
  "pow2 e = (if 0 \<le> e then 2 ^ nat e else 1 / 2 ^ nat (- e))"

text \<open>
  For \<open>q > 0\<close>, the exponent \<open>e\<close> with \<open>2^e \<le> q < 2^(e+1)\<close>: with \<open>q = a / b\<close> in lowest
  terms it is the difference of the bit lengths of \<open>a\<close> and \<open>b\<close>, or one less.
\<close>

definition floorLog2 :: "rat \<Rightarrow> int" where
  "floorLog2 q =
     (let (a, b) = quotient_of q;
          k = bitLength a - bitLength b
      in if pow2 k \<le> q then k else k - 1)"

definition roundHalfEven :: "rat \<Rightarrow> int" where
  "roundHalfEven x =
     (let f = \<lfloor>x\<rfloor>; d = x - of_int f
      in if d < 1 / 2 then f else if 1 / 2 < d then f + 1 else if even f then f else f + 1)"

text \<open>
  The Number value of a rational: binary64 numbers with exponent \<open>e\<close> are the multiples
  of \<open>2^(e - 52)\<close>, the exponent being at least \<open>-1022\<close> (below that the numbers are
  subnormal, multiples of \<open>2^-1074\<close>); a result of \<open>2^1024\<close> is an infinity. Lemma
  \<open>binary64_near\<close> below shows that a finite result is such a multiple, with a significand
  of at most 53 bits, at most half a quantum away from the argument.
\<close>

definition binary64 :: "rat \<Rightarrow> number" where
  "binary64 q =
     (if q = 0 then Finite 0
      else
        (let a = \<bar>q\<bar>;
             e = max (floorLog2 a) (- 1022);
             quantum = pow2 (e - 52);
             n = roundHalfEven (a / quantum)
         in if 1024 \<le> e \<or> (e = 1023 \<and> 2 ^ 53 \<le> n)
            then (if q < 0 then NegInfinity else PosInfinity)
            else Finite ((if q < 0 then - 1 else 1) * of_int n * quantum)))"

definition scale10 :: "rat \<Rightarrow> int \<Rightarrow> rat" where
  "scale10 x e = (if 0 \<le> e then x * 10 ^ nat e else x / 10 ^ nat (- e))"

definition parseUnsigned :: "string \<Rightarrow> number option" where
  "parseUnsigned u =
     (if startsWith u ''Infinity'' then Some PosInfinity
      else
        (let ip = takeWhile isDigit u;
             r1 = dropWhile isDigit u;
             fp = (case r1 of [] \<Rightarrow> [] | c # r \<Rightarrow> if c = CHR ''.'' then takeWhile isDigit r else []);
             r2 = (case r1 of [] \<Rightarrow> [] | c # r \<Rightarrow> if c = CHR ''.'' then dropWhile isDigit r else r1)
         in if ip = [] \<and> fp = [] then None
            else Some (binary64 (scale10
                   (of_nat (decimalValue ip) + of_nat (decimalValue fp) / 10 ^ length fp)
                   (exponentValue r2)))))"

definition negate :: "number \<Rightarrow> number" where
  "negate x = (case x of NegInfinity \<Rightarrow> PosInfinity | Finite q \<Rightarrow> Finite (- q) | PosInfinity \<Rightarrow> NegInfinity)"

definition parseFloat :: "string \<Rightarrow> number option" where
  "parseFloat s =
     (case dropWhile isWhiteSpace s of
        [] \<Rightarrow> None
      | c # r \<Rightarrow>
          if c = CHR ''+'' then parseUnsigned r
          else if c = CHR ''-'' then map_option negate (parseUnsigned r)
          else parseUnsigned (c # r))"

text \<open>
  The sign of \<open>a - b\<close>, as a sort comparator's result is read: the difference of two equal
  infinities is \<open>NaN\<close>, which \<open>sort\<close> treats as \<open>0\<close>.
\<close>

fun minusSign :: "number \<Rightarrow> number \<Rightarrow> int" where
  "minusSign (Finite x) (Finite y) = (if x < y then - 1 else if x = y then 0 else 1)"
| "minusSign PosInfinity PosInfinity = 0"
| "minusSign NegInfinity NegInfinity = 0"
| "minusSign PosInfinity _ = 1"
| "minusSign _ PosInfinity = - 1"
| "minusSign NegInfinity _ = - 1"
| "minusSign _ NegInfinity = 1"

text \<open>\<open>parseInt\<close> on a string of decimal digits, which is all that \<open>(\d+)\<close> can capture.\<close>

definition parseInt :: "string \<Rightarrow> nat" where
  "parseInt s = decimalValue s"

text \<open>
  \<open>Array.prototype.sort\<close> with a comparator returns a permutation of the array. When
  the comparator is a consistent comparison on the elements (\<open>consistentComparator\<close>
  below), the language fixes the result: the stable sorted arrangement. Otherwise the
  arrangement is left to the host. The model is insertion sort, which places an element
  before the first later element that the comparator does not put in front of it: for a
  consistent comparator it is the arrangement every host returns, for any other it is
  one of the permutations a host may return. Statements about the order of the result
  are therefore made for consistent comparators only.
\<close>

fun insertBy :: "('a \<Rightarrow> 'a \<Rightarrow> int) \<Rightarrow> 'a \<Rightarrow> 'a list \<Rightarrow> 'a list" where
  "insertBy cmp x [] = [x]"
| "insertBy cmp x (y # ys) = (if cmp x y \<le> 0 then x # y # ys else y # insertBy cmp x ys)"

definition sortBy :: "('a \<Rightarrow> 'a \<Rightarrow> int) \<Rightarrow> 'a list \<Rightarrow> 'a list" where
  "sortBy cmp xs = foldr (insertBy cmp) xs []"

text \<open>
  The host's \<open>localeCompare\<close> depends on its locale and is a parameter of the engine
  below. To run the engine on examples, \<open>compareCodeUnits\<close> is one such comparison: the
  order of the code units.
\<close>

fun compareCodeUnits :: "string \<Rightarrow> string \<Rightarrow> int" where
  "compareCodeUnits [] [] = 0"
| "compareCodeUnits [] (b # bs) = - 1"
| "compareCodeUnits (a # as) [] = 1"
| "compareCodeUnits (a # as) (b # bs) =
     (if (of_char a :: nat) < of_char b then - 1
      else if (of_char b :: nat) < of_char a then 1
      else compareCodeUnits as bs)"

section \<open>The query engine: \<open>executeCSVQuery\<close>\<close>

text \<open>
  \<open>QueryResult\<close>. The field \<open>rows\<close> of the source is \<open>resultRows\<close> here, after the variable
  it is built from, since \<open>rows\<close> is the field of \<open>CSVData\<close>. A column name is
  \<open>string | undefined\<close> at run time (\<open>headers[0]\<close> of a table without headers), hence the
  option. \<open>executionTime\<close> is a difference of two readings of the wall clock; it takes part
  in no decision and is left out.
\<close>

record QueryResult =
  columns :: "string option list"
  resultRows :: "string list list"
  rowCount :: nat

text \<open>\<open>xs.findIndex(p)\<close>; the result \<open>-1\<close> is \<open>None\<close>.\<close>

fun findIndex :: "('a \<Rightarrow> bool) \<Rightarrow> 'a list \<Rightarrow> nat option" where
  "findIndex p [] = None"
| "findIndex p (x # xs) = (if p x then Some 0 else map_option Suc (findIndex p xs))"

text \<open>\<open>headers.findIndex(h => h.toLowerCase() === name.toLowerCase())\<close>\<close>

definition headerIndex :: "string list \<Rightarrow> string \<Rightarrow> nat option" where
  "headerIndex hs name = findIndex (\<lambda>h. toLowerCase h = toLowerCase name) hs"

text \<open>\<open>row[i] || ''\<close>: a missing cell reads as the empty string.\<close>

definition cell :: "string list \<Rightarrow> nat \<Rightarrow> string" where
  "cell row i = (if i < length row then row ! i else [])"

text \<open>\<open>data.headers[i]\<close>\<close>

definition headerAt :: "string list \<Rightarrow> nat \<Rightarrow> string option" where
  "headerAt hs i = (if i < length hs then Some (hs ! i) else None)"

text \<open>
  The projection: the pair \<open>(selectedColumns, columnIndices)\<close> after the block
  "Handle SELECT columns". Group 1 of \<open>selectRe\<close> is set by every match
  (lemma \<open>regexMatch_group\<close> below), so the branch for an unset group is never taken;
  the same holds for group 1 of \<open>whereRe\<close>, \<open>orderRe\<close> and \<open>limitRe\<close> and for both
  groups of \<open>likeRe\<close>.
\<close>

definition selectColumns :: "string list \<Rightarrow> string \<Rightarrow> string option list \<times> nat list" where
  "selectColumns hs normalizedQuery =
     (case regexMatch selectRe normalizedQuery of
        None \<Rightarrow> (map Some hs, [0 ..< length hs])
      | Some selectMatch \<Rightarrow>
          (case capture selectMatch 1 of
             None \<Rightarrow> (map Some hs, [0 ..< length hs])
           | Some g \<Rightarrow>
               if trim g \<noteq> ''*'' then
                 (let columns = map trim (split (CHR '','') g);
                      columnIndices =
                        map (\<lambda>col. case headerIndex hs col of Some index \<Rightarrow> index | None \<Rightarrow> 0) columns
                  in (map (headerAt hs) columnIndices, columnIndices))
               else (map Some hs, [0 ..< length hs])))"

text \<open>\<open>value.replace(/['"]/g, '')\<close> and \<open>pattern.replace(/%/g, '')\<close>\<close>

definition removeChars :: "string \<Rightarrow> string \<Rightarrow> string" where
  "removeChars cs s = filter (\<lambda>c. c \<notin> set cs) s"

text \<open>
  The callback of \<open>data.rows.filter\<close> in the client's engine. When \<open>=\<close> occurs in the
  clause, \<open>split\<close> has at least two parts, so both \<open>column\<close> and \<open>value\<close> are defined; and
  both groups of \<open>likeRe\<close> are set by every match.
\<close>

definition whereFilter :: "string list \<Rightarrow> string \<Rightarrow> string list \<Rightarrow> bool" where
  "whereFilter hs whereClause row =
     (if includesStr whereClause ''='' then
        (case map trim (split (CHR ''='') whereClause) of
           column # value # _ \<Rightarrow>
             (case headerIndex hs column of
                Some columnIndex \<Rightarrow>
                  includesStr (toLowerCase (cell row columnIndex))
                              (toLowerCase (removeChars [CHR 0x27, CHR 0x22] value))
              | None \<Rightarrow> True)
         | _ \<Rightarrow> True)
      else if includesStr whereClause ''like'' then
        (case regexMatch likeRe whereClause of
           Some likeMatch \<Rightarrow>
             (case (capture likeMatch 1, capture likeMatch 2) of
                (Some column, Some pattern) \<Rightarrow>
                  (case headerIndex hs column of
                     Some columnIndex \<Rightarrow>
                       includesStr (toLowerCase (cell row columnIndex))
                                   (toLowerCase (removeChars [CHR ''%''] pattern))
                   | None \<Rightarrow> True)
              | _ \<Rightarrow> True)
         | None \<Rightarrow> True)
      else True)"

text \<open>
  The callback of \<open>data.rows.filter\<close> in the server's engine: no branch for \<open>like\<close>, and
  \<open>row[columnIndex]?.toLowerCase().includes(...)\<close> is \<open>undefined\<close>, hence false, for a row
  without a cell at the index.
\<close>

definition whereFilter_server :: "string list \<Rightarrow> string \<Rightarrow> string list \<Rightarrow> bool" where
  "whereFilter_server hs whereClause row =
     (if includesStr whereClause ''='' then
        (case map trim (split (CHR ''='') whereClause) of
           column # value # _ \<Rightarrow>
             (case headerIndex hs column of
                Some columnIndex \<Rightarrow>
                  columnIndex < length row \<and>
                  includesStr (toLowerCase (row ! columnIndex))
                              (toLowerCase (removeChars [CHR 0x27, CHR 0x22] value))
              | None \<Rightarrow> True)
         | _ \<Rightarrow> True)
      else True)"

text \<open>
  The comparator handed to \<open>sort\<close>; \<open>localeCompare\<close> is the host's collation and a
  parameter of the model. Only the sign of the result matters.
\<close>

definition compareRows ::
  "(string \<Rightarrow> string \<Rightarrow> int) \<Rightarrow> nat \<Rightarrow> string option \<Rightarrow> string list \<Rightarrow> string list \<Rightarrow> int" where
  "compareRows localeCompare columnIndex direction a b =
     (let aVal = cell a columnIndex;
          bVal = cell b columnIndex
      in case (parseFloat aVal, parseFloat bVal) of
           (Some aNum, Some bNum) \<Rightarrow>
             if map_option toLowerCase direction = Some ''desc''
             then minusSign bNum aNum else minusSign aNum bNum
         | _ \<Rightarrow>
             (let result = localeCompare aVal bVal
              in if map_option toLowerCase direction = Some ''desc'' then - result else result))"

text \<open>The rows after the block "Handle WHERE clause".\<close>

definition filterRows :: "string \<Rightarrow> CSVData \<Rightarrow> string list list" where
  "filterRows normalizedQuery data =
     (case regexMatch whereRe normalizedQuery of
        None \<Rightarrow> rows data
      | Some whereMatch \<Rightarrow>
          (case capture whereMatch 1 of
             None \<Rightarrow> rows data
           | Some whereClause \<Rightarrow> filter (whereFilter (headers data) whereClause) (rows data)))"

text \<open>The rows after the block "Handle ORDER BY clause".\<close>

definition orderRows ::
  "(string \<Rightarrow> string \<Rightarrow> int) \<Rightarrow> string \<Rightarrow> string list \<Rightarrow> string list list \<Rightarrow> string list list" where
  "orderRows localeCompare normalizedQuery hs filteredRows =
     (case regexMatch orderRe normalizedQuery of
        None \<Rightarrow> filteredRows
      | Some orderMatch \<Rightarrow>
          (case capture orderMatch 1 of
             None \<Rightarrow> filteredRows
           | Some column \<Rightarrow>
               (case headerIndex hs column of
                  Some columnIndex \<Rightarrow>
                    sortBy (compareRows localeCompare columnIndex (capture orderMatch 2)) filteredRows
                | None \<Rightarrow> filteredRows)))"

text \<open>The rows after the block "Handle LIMIT clause".\<close>

definition limitRows :: "string \<Rightarrow> string list list \<Rightarrow> string list list" where
  "limitRows normalizedQuery filteredRows =
     (case regexMatch limitRe normalizedQuery of
        None \<Rightarrow> filteredRows
      | Some limitMatch \<Rightarrow>
          (case capture limitMatch 1 of
             None \<Rightarrow> filteredRows
           | Some digits \<Rightarrow> take (parseInt digits) filteredRows))"

definition unsupported :: QueryResult where
  "unsupported =
     \<lparr>columns = [Some ''message''],
      resultRows = [[''Query type not supported. Please use SELECT statements.'']],
      rowCount = 1\<rparr>"

text \<open>
  The client's engine. \<open>sort\<close> works in place, and \<open>filteredRows\<close> is the array
  \<open>data.rows\<close> itself unless the WHERE block has replaced it by the fresh array that
  \<open>filter\<close> returns. So the function returns, next to its result, the table as the call
  leaves it.
\<close>

definition executeCSVQuery ::
  "(string \<Rightarrow> string \<Rightarrow> int) \<Rightarrow> string \<Rightarrow> CSVData \<Rightarrow> QueryResult \<times> CSVData" where
  "executeCSVQuery localeCompare query data =
     (let normalizedQuery = trim (toLowerCase query)
      in if includesStr normalizedQuery ''select'' then
           (let (selectedColumns, columnIndices) = selectColumns (headers data) normalizedQuery;
                filteredRows = filterRows normalizedQuery data;
                sortedRows = orderRows localeCompare normalizedQuery (headers data) filteredRows;
                data' = (if regexMatch whereRe normalizedQuery = None
                         then data\<lparr>rows := sortedRows\<rparr> else data);
                limitedRows = limitRows normalizedQuery sortedRows;
                resultRows = map (\<lambda>row. map (cell row) columnIndices) limitedRows
            in (\<lparr>columns = selectedColumns, resultRows = resultRows,
                 rowCount = length resultRows\<rparr>, data'))
         else (unsupported, data))"

text \<open>
  The server's engine (\<open>executeCSVQuery\<close> of \<open>execute-sql/index.ts\<close>): the same text
  without the ORDER BY block and with the server's filter callback. It changes nothing
  in place.
\<close>

definition filterRows_server :: "string \<Rightarrow> CSVData \<Rightarrow> string list list" where
  "filterRows_server normalizedQuery data =
     (case regexMatch whereRe normalizedQuery of
        None \<Rightarrow> rows data
      | Some whereMatch \<Rightarrow>
          (case capture whereMatch 1 of
             None \<Rightarrow> rows data
           | Some whereClause \<Rightarrow> filter (whereFilter_server (headers data) whereClause) (rows data)))"

definition executeCSVQuery_server :: "string \<Rightarrow> CSVData \<Rightarrow> QueryResult" where
  "executeCSVQuery_server query data =
     (let normalizedQuery = trim (toLowerCase query)
      in if includesStr normalizedQuery ''select'' then
           (let (selectedColumns, columnIndices) = selectColumns (headers data) normalizedQuery;
                filteredRows = filterRows_server normalizedQuery data;
                limitedRows = limitRows normalizedQuery filteredRows;
                resultRows = map (\<lambda>row. map (cell row) columnIndices) limitedRows
            in \<lparr>columns = selectedColumns, resultRows = resultRows,
                rowCount = length resultRows\<rparr>)
         else unsupported)"

text \<open>
  The filter of C3 as the sentence words it: the value token is all of the clause after
  its first \<open>=\<close>.
\<close>

definition fuzzyEquals_stated :: "string list \<Rightarrow> string \<Rightarrow> string list \<Rightarrow> bool" where
  "fuzzyEquals_stated hs whereClause row =
     (case headerIndex hs (trim (takeWhile (\<lambda>c. c \<noteq> CHR ''='') whereClause)) of
        Some i \<Rightarrow>
          includesStr (toLowerCase (cell row i))
            (toLowerCase (removeChars [CHR 0x27, CHR 0x22]
               (trim (drop 1 (dropWhile (\<lambda>c. c \<noteq> CHR ''='') whereClause)))))
      | None \<Rightarrow> True)"

text \<open>
  The comparison of C6 as the sentence words it, on two cells: numeric when both cells
  parse as numbers, the string comparison otherwise, and the opposite sign when the order
  is descending.
\<close>

definition compareCells_stated :: "(string \<Rightarrow> string \<Rightarrow> int) \<Rightarrow> bool \<Rightarrow> string \<Rightarrow> string \<Rightarrow> int" where
  "compareCells_stated localeCompare descending a b =
     (let ascending =
            (case (parseFloat a, parseFloat b) of
               (Some x, Some y) \<Rightarrow> minusSign x y
             | _ \<Rightarrow> localeCompare a b)
      in if descending then - ascending else ascending)"

text \<open>
  Rows sorted on column \<open>i\<close> as the sentence of C6 has it, the lexicographic comparison
  of strings being the comparison of their code units: every row is "not after" every
  later row.
\<close>

definition sortedAsStated :: "bool \<Rightarrow> nat \<Rightarrow> string list list \<Rightarrow> bool" where
  "sortedAsStated descending i rs =
     sorted_wrt (\<lambda>a b. compareCells_stated compareCodeUnits descending (cell a i) (cell b i) \<le> 0) rs"

text \<open>
  A consistent comparison function for a set of values, as the language defines it for
  \<open>sort\<close> (the results being read by their sign): equality is reflexive, symmetric and
  transitive, and "before" and "after" are transitive.
\<close>

definition consistentComparator :: "('a \<Rightarrow> 'a \<Rightarrow> int) \<Rightarrow> 'a set \<Rightarrow> bool" where
  "consistentComparator cmp S =
     ((\<forall>a \<in> S. cmp a a = 0) \<and>
      (\<forall>a \<in> S. \<forall>b \<in> S. cmp a b = 0 \<longrightarrow> cmp b a = 0) \<and>
      (\<forall>a \<in> S. \<forall>b \<in> S. \<forall>c \<in> S. cmp a b = 0 \<and> cmp b c = 0 \<longrightarrow> cmp a c = 0) \<and>
      (\<forall>a \<in> S. \<forall>b \<in> S. \<forall>c \<in> S. cmp a b < 0 \<and> cmp b c < 0 \<longrightarrow> cmp a c < 0) \<and>
      (\<forall>a \<in> S. \<forall>b \<in> S. \<forall>c \<in> S. cmp a b > 0 \<and> cmp b c > 0 \<longrightarrow> cmp a c > 0))"

text \<open>
  A consequence used for sorting: "not after" (\<open>cmp a b \<le> 0\<close>) is total and transitive
  on the set.
\<close>

definition consistentOn :: "('a \<Rightarrow> 'a \<Rightarrow> int) \<Rightarrow> 'a set \<Rightarrow> bool" where
  "consistentOn cmp S =
     ((\<forall>a \<in> S. \<forall>b \<in> S. cmp a b \<le> 0 \<or> cmp b a \<le> 0) \<and>
      (\<forall>a \<in> S. \<forall>b \<in> S. \<forall>c \<in> S. cmp a b \<le> 0 \<and> cmp b c \<le> 0 \<longrightarrow> cmp a c \<le> 0))"

section \<open>Properties of the host functions\<close>

lemma startsWith_iff: "startsWith s p = (\<exists>b. s = p @ b)"
  by (induction s p rule: startsWith.induct) auto

lemma includesStr_iff: "includesStr s p = (\<exists>a b. s = a @ p @ b)"
proof (induction s)
  case Nil
  show ?case by auto
next
  case (Cons c cs)
  show ?case
  proof
    assume "includesStr (c # cs) p"
    then consider "startsWith (c # cs) p" | "includesStr cs p" by auto
    then show "\<exists>a b. c # cs = a @ p @ b"
    proof cases
      case 1
      then obtain b where "c # cs = p @ b" by (auto simp: startsWith_iff)
      then have "c # cs = [] @ p @ b" by simp
      then show ?thesis by blast
    next
      case 2
      then obtain a b where "cs = a @ p @ b" using Cons by auto
      then have "c # cs = (c # a) @ p @ b" by simp
      then show ?thesis by blast
    qed
  next
    assume "\<exists>a b. c # cs = a @ p @ b"
    then obtain a b where e: "c # cs = a @ p @ b" by blast
    show "includesStr (c # cs) p"
    proof (cases a)
      case Nil
      with e have "startsWith (c # cs) p" by (auto simp: startsWith_iff)
      then show ?thesis by simp
    next
      case (Cons x a')
      with e have "cs = a' @ p @ b" by simp
      then have "includesStr cs p" using Cons.IH by blast
      then show ?thesis by simp
    qed
  qed
qed

text \<open>\<open>trim\<close> cuts white space off both ends and nothing else.\<close>

lemma trim_decomp:
  "\<exists>l r. s = l @ trim s @ r \<and> (\<forall>c \<in> set l. isWhiteSpace c) \<and> (\<forall>c \<in> set r. isWhiteSpace c)"
proof -
  let ?l = "takeWhile isWhiteSpace s"
  let ?m = "dropWhile isWhiteSpace s"
  let ?r = "rev (takeWhile isWhiteSpace (rev ?m))"
  have "rev (takeWhile isWhiteSpace (rev ?m) @ dropWhile isWhiteSpace (rev ?m)) = rev (rev ?m)"
    by (simp only: takeWhile_dropWhile_id)
  then have "rev (dropWhile isWhiteSpace (rev ?m)) @ ?r = ?m"
    by (simp only: rev_append rev_rev_ident)
  then have m: "?m = trim s @ ?r"
    by (simp only: trim_def)
  have "s = ?l @ ?m" by simp
  with m have "s = ?l @ trim s @ ?r" by simp
  moreover have "\<forall>c \<in> set ?l. isWhiteSpace c" by (auto dest: set_takeWhileD)
  moreover have "\<forall>c \<in> set ?r. isWhiteSpace c" by (auto dest: set_takeWhileD)
  ultimately show ?thesis by blast
qed

lemma includesStr_trim: "includesStr (trim s) p \<Longrightarrow> includesStr s p"
proof -
  assume "includesStr (trim s) p"
  then obtain a b where t: "trim s = a @ p @ b" by (auto simp: includesStr_iff)
  obtain l r where "s = l @ trim s @ r" using trim_decomp by blast
  with t have "s = (l @ a) @ p @ (b @ r)" by simp
  then show ?thesis unfolding includesStr_iff by blast
qed

lemma matches_group:
  "setsGroup r k \<Longrightarrow> (c, s1) \<in> set (matches r s) \<Longrightarrow> k \<in> fst ` set c"
proof (induction r arbitrary: c s1 s)
  case (Seq r1 r2)
  from Seq.prems(2) obtain c1 t c2 where
    a: "(c1, t) \<in> set (matches r1 s)" and b: "(c2, s1) \<in> set (matches r2 t)" and c: "c = c1 @ c2"
    by auto
  from Seq.prems(1) consider "setsGroup r1 k" | "setsGroup r2 k" by auto
  then show ?case
  proof cases
    case 1
    from Seq.IH(1) [OF 1 a] c show ?thesis by auto
  next
    case 2
    from Seq.IH(2) [OF 2 b] c show ?thesis by auto
  qed
next
  case (Alt r1 r2)
  then show ?case by auto
next
  case (Group j r)
  from Group.prems(2) obtain c' where
    a: "(c', s1) \<in> set (matches r s)" and c: "c = c' @ [(j, take (length s - length s1) s)]"
    by auto
  show ?case
  proof (cases "j = k")
    case True
    with c show ?thesis by auto
  next
    case False
    with Group.prems(1) have "setsGroup r k" by simp
    from Group.IH [OF this a] c show ?thesis by auto
  qed
qed simp_all

lemma regexMatch_in_matches:
  "regexMatch r s = Some c \<Longrightarrow> \<exists>t s1. (c, s1) \<in> set (matches r t)"
proof (induction s)
  case Nil
  then show ?case
    by (cases "matches r []") (auto simp: regexMatch.simps split: prod.splits, metis list.set_intros(1))
next
  case (Cons x xs)
  show ?case
  proof (cases "matches r (x # xs)")
    case Nil
    with Cons show ?thesis by (simp add: regexMatch.simps)
  next
    case (Cons p ps)
    obtain c' s1 where "p = (c', s1)" by (cases p)
    with Cons Cons.prems have "(c, s1) \<in> set (matches r (x # xs))"
      by (simp add: regexMatch.simps)
    then show ?thesis by blast
  qed
qed

lemma regexMatch_group:
  assumes "setsGroup r k" and "regexMatch r s = Some c"
  shows "\<exists>g. capture c k = Some g"
proof -
  from regexMatch_in_matches [OF assms(2)] obtain t s1 where "(c, s1) \<in> set (matches r t)"
    by blast
  from matches_group [OF assms(1) this] have "k \<in> fst ` set c" .
  then have "map_of c k \<noteq> None" by (simp add: map_of_eq_None_iff)
  then show ?thesis by (auto simp: capture_def)
qed

lemma regexes_set_their_groups:
  "setsGroup selectRe 1" "setsGroup whereRe 1" "setsGroup orderRe 1" "setsGroup limitRe 1"
  "setsGroup likeRe 1" "setsGroup likeRe 2"
  by (simp_all add: selectRe_def whereRe_def orderRe_def limitRe_def likeRe_def)

section \<open>Properties of the engine\<close>

lemma set_insertBy: "set (insertBy cmp x ys) = insert x (set ys)"
  by (induction ys) auto

lemma set_sortBy: "set (sortBy cmp xs) = set xs"
  by (induction xs) (auto simp: sortBy_def set_insertBy)

lemma length_insertBy: "length (insertBy cmp x ys) = Suc (length ys)"
  by (induction ys) auto

lemma length_sortBy: "length (sortBy cmp xs) = length xs"
  by (induction xs) (auto simp: sortBy_def length_insertBy)

lemma set_filterRows: "set (filterRows nq data) \<subseteq> set (rows data)"
  by (auto simp: filterRows_def split: option.splits)

lemma set_filterRows_server: "set (filterRows_server nq data) \<subseteq> set (rows data)"
  by (auto simp: filterRows_server_def split: option.splits)

lemma set_orderRows: "set (orderRows lc nq hs rs) = set rs"
  by (auto simp: orderRows_def set_sortBy split: option.splits)

lemma set_limitRows: "set (limitRows nq rs) \<subseteq> set rs"
  by (auto simp: limitRows_def split: option.splits dest: in_set_takeD)

lemma project_all: "length row = n \<Longrightarrow> map (cell row) [0 ..< n] = row"
  by (auto simp: cell_def intro: nth_equalityI)

lemma project_all_rows:
  assumes "\<forall>row \<in> set rs. length row = n"
  shows "map (\<lambda>row. map (cell row) [0 ..< n]) rs = rs"
  using assms by (induction rs) (simp_all add: project_all)


lemma executeCSVQuery_select:
  assumes "includesStr (trim (toLowerCase query)) ''select''"
  shows "executeCSVQuery localeCompare query data =
     (\<lparr>columns = fst (selectColumns (headers data) (trim (toLowerCase query))),
       resultRows =
         map (\<lambda>row. map (cell row) (snd (selectColumns (headers data) (trim (toLowerCase query)))))
           (limitRows (trim (toLowerCase query))
              (orderRows localeCompare (trim (toLowerCase query)) (headers data)
                 (filterRows (trim (toLowerCase query)) data))),
       rowCount =
         length (limitRows (trim (toLowerCase query))
              (orderRows localeCompare (trim (toLowerCase query)) (headers data)
                 (filterRows (trim (toLowerCase query)) data)))\<rparr>,
      if regexMatch whereRe (trim (toLowerCase query)) = None
      then data\<lparr>rows := orderRows localeCompare (trim (toLowerCase query)) (headers data)
                 (filterRows (trim (toLowerCase query)) data)\<rparr>
      else data)"
  using assms by (simp add: executeCSVQuery_def Let_def split_beta)

lemma executeCSVQuery_server_select:
  assumes "includesStr (trim (toLowerCase query)) ''select''"
  shows "executeCSVQuery_server query data =
     \<lparr>columns = fst (selectColumns (headers data) (trim (toLowerCase query))),
      resultRows =
         map (\<lambda>row. map (cell row) (snd (selectColumns (headers data) (trim (toLowerCase query)))))
           (limitRows (trim (toLowerCase query)) (filterRows_server (trim (toLowerCase query)) data)),
      rowCount =
         length (limitRows (trim (toLowerCase query))
                   (filterRows_server (trim (toLowerCase query)) data))\<rparr>"
  using assms by (simp add: executeCSVQuery_server_def Let_def split_beta)

lemma survivors_subset:
  "set (limitRows nq (orderRows lc nq hs (filterRows nq data))) \<subseteq> set (rows data)"
  using set_limitRows [of nq "orderRows lc nq hs (filterRows nq data)"]
        set_orderRows [of lc nq hs "filterRows nq data"] set_filterRows [of nq data]
  by blast

lemma survivors_server_subset:
  "set (limitRows nq (filterRows_server nq data)) \<subseteq> set (rows data)"
  using set_limitRows [of nq "filterRows_server nq data"] set_filterRows_server [of nq data]
  by blast

lemma selectColumns_no_match:
  "regexMatch selectRe nq = None \<Longrightarrow> selectColumns hs nq = (map Some hs, [0 ..< length hs])"
  by (simp add: selectColumns_def)

lemma selectColumns_named:
  assumes "regexMatch selectRe nq = Some m" and "capture m 1 = Some g" and "trim g \<noteq> ''*''"
  shows "selectColumns hs nq =
     (map (\<lambda>col. headerAt hs (case headerIndex hs col of Some index \<Rightarrow> index | None \<Rightarrow> 0))
          (map trim (split (CHR '','') g)),
      map (\<lambda>col. case headerIndex hs col of Some index \<Rightarrow> index | None \<Rightarrow> 0)
          (map trim (split (CHR '','') g)))"
  using assms by (simp add: selectColumns_def Let_def comp_def)

lemma split_unfold:
  "split sep s =
     takeWhile (\<lambda>c. c \<noteq> sep) s #
       (case dropWhile (\<lambda>c. c \<noteq> sep) s of [] \<Rightarrow> [] | d # rest \<Rightarrow> split sep rest)"
  by (induction s) (auto split: list.splits)

lemma split_not_Nil: "split sep s \<noteq> []"
  by (subst split_unfold) simp

lemma includesStr_single: "includesStr s [c] = (c \<in> set s)"
  by (induction s) auto

text \<open>
  When \<open>=\<close> occurs in the clause, the first two parts of \<open>split\<close> are the text before
  the first \<open>=\<close> and the text between the first and the second (or the end).
\<close>

lemma split_two:
  assumes "sep \<in> set s"
  shows "\<exists>rest. split sep s =
           takeWhile (\<lambda>c. c \<noteq> sep) s #
           takeWhile (\<lambda>c. c \<noteq> sep) (drop 1 (dropWhile (\<lambda>c. c \<noteq> sep) s)) # rest"
proof -
  from assms have "dropWhile (\<lambda>c. c \<noteq> sep) s \<noteq> []"
    by (auto simp: dropWhile_eq_Nil_conv)
  then obtain d r where d: "dropWhile (\<lambda>c. c \<noteq> sep) s = d # r"
    by (cases "dropWhile (\<lambda>c. c \<noteq> sep) s") auto
  have "split sep s = takeWhile (\<lambda>c. c \<noteq> sep) s # split sep r"
    by (subst split_unfold) (simp add: d)
  also have "split sep r = takeWhile (\<lambda>c. c \<noteq> sep) r #
      (case dropWhile (\<lambda>c. c \<noteq> sep) r of [] \<Rightarrow> [] | d # rest \<Rightarrow> split sep rest)"
    by (rule split_unfold)
  finally show ?thesis by (simp add: d)
qed

lemma whereFilter_equals:
  assumes "includesStr whereClause ''=''"
      and "headerIndex hs (trim (takeWhile (\<lambda>c. c \<noteq> CHR ''='') whereClause)) = Some i"
  shows "whereFilter hs whereClause row =
           includesStr (toLowerCase (cell row i))
             (toLowerCase (removeChars [CHR 0x27, CHR 0x22]
                (trim (takeWhile (\<lambda>c. c \<noteq> CHR ''='')
                   (drop 1 (dropWhile (\<lambda>c. c \<noteq> CHR ''='') whereClause))))))"
proof -
  from assms(1) have "CHR ''='' \<in> set whereClause" by (simp add: includesStr_single)
  from split_two [OF this] obtain rest where
    "split (CHR ''='') whereClause =
       takeWhile (\<lambda>c. c \<noteq> CHR ''='') whereClause #
       takeWhile (\<lambda>c. c \<noteq> CHR ''='') (drop 1 (dropWhile (\<lambda>c. c \<noteq> CHR ''='') whereClause)) # rest"
    by blast
  with assms show ?thesis by (simp add: whereFilter_def)
qed

lemma whereFilter_server_equals:
  assumes "includesStr whereClause ''=''"
      and "headerIndex hs (trim (takeWhile (\<lambda>c. c \<noteq> CHR ''='') whereClause)) = Some i"
      and "i < length row"
  shows "whereFilter_server hs whereClause row =
           includesStr (toLowerCase (cell row i))
             (toLowerCase (removeChars [CHR 0x27, CHR 0x22]
                (trim (takeWhile (\<lambda>c. c \<noteq> CHR ''='')
                   (drop 1 (dropWhile (\<lambda>c. c \<noteq> CHR ''='') whereClause))))))"
proof -
  from assms(1) have "CHR ''='' \<in> set whereClause" by (simp add: includesStr_single)
  from split_two [OF this] obtain rest where
    "split (CHR ''='') whereClause =
       takeWhile (\<lambda>c. c \<noteq> CHR ''='') whereClause #
       takeWhile (\<lambda>c. c \<noteq> CHR ''='') (drop 1 (dropWhile (\<lambda>c. c \<noteq> CHR ''='') whereClause)) # rest"
    by blast
  with assms show ?thesis by (simp add: whereFilter_server_def cell_def)
qed

lemma findIndex_less: "findIndex p xs = Some i \<Longrightarrow> i < length xs"
  by (induction xs arbitrary: i) (auto split: if_splits)

lemma headerIndex_less: "headerIndex hs name = Some i \<Longrightarrow> i < length hs"
  by (simp add: headerIndex_def findIndex_less)

lemma whereFilter_like:
  assumes "\<not> includesStr whereClause ''=''"
      and "includesStr whereClause ''like''"
      and "regexMatch likeRe whereClause = Some likeMatch"
      and "capture likeMatch 1 = Some column"
      and "capture likeMatch 2 = Some pattern"
      and "headerIndex hs column = Some i"
  shows "whereFilter hs whereClause row =
           includesStr (toLowerCase (cell row i)) (toLowerCase (removeChars [CHR ''%''] pattern))"
  using assms by (simp add: whereFilter_def)

lemma whereFilter_server_no_equals:
  "\<not> includesStr whereClause ''='' \<Longrightarrow> whereFilter_server hs whereClause row"
  by (simp add: whereFilter_server_def)

text \<open>
  The client's engine leaves the table as it found it whenever the WHERE pattern matches
  or the ORDER BY pattern does not; the headers are never touched.
\<close>

lemma executeCSVQuery_frame:
  assumes "nq = trim (toLowerCase query)"
      and "regexMatch whereRe nq \<noteq> None \<or> regexMatch orderRe nq = None"
  shows "snd (executeCSVQuery localeCompare query data) = data"
proof (cases "includesStr nq ''select''")
  case False
  with assms(1) show ?thesis by (simp add: executeCSVQuery_def)
next
  case True
  then have inc: "includesStr (trim (toLowerCase query)) ''select''"
    using assms(1) by simp
  show ?thesis
  proof (cases "regexMatch whereRe nq = None")
    case False
    with assms(1) show ?thesis by (auto simp: executeCSVQuery_select [OF inc])
  next
    case wn: True
    with assms(2) have "regexMatch orderRe nq = None" by simp
    then have "orderRows localeCompare nq (headers data) (filterRows nq data) = rows data"
      using wn by (simp add: orderRows_def filterRows_def)
    with wn assms(1) show ?thesis by (simp add: executeCSVQuery_select [OF inc])
  qed
qed

lemma executeCSVQuery_headers:
  "headers (snd (executeCSVQuery localeCompare query data)) = headers data"
  by (simp add: executeCSVQuery_def Let_def split_beta)

lemma mset_insertBy: "mset (insertBy cmp x ys) = add_mset x (mset ys)"
  by (induction ys) auto

lemma mset_sortBy: "mset (sortBy cmp xs) = mset xs"
  by (induction xs) (auto simp: sortBy_def mset_insertBy)

lemma consistentOn_subset: "consistentOn cmp S \<Longrightarrow> T \<subseteq> S \<Longrightarrow> consistentOn cmp T"
  unfolding consistentOn_def by blast

lemma consistentOn_total: "consistentOn cmp S \<Longrightarrow> a \<in> S \<Longrightarrow> b \<in> S \<Longrightarrow> cmp a b \<le> 0 \<or> cmp b a \<le> 0"
  unfolding consistentOn_def by blast

lemma consistentOn_trans:
  "consistentOn cmp S \<Longrightarrow> a \<in> S \<Longrightarrow> b \<in> S \<Longrightarrow> c \<in> S \<Longrightarrow>
   cmp a b \<le> 0 \<Longrightarrow> cmp b c \<le> 0 \<Longrightarrow> cmp a c \<le> 0"
  unfolding consistentOn_def by blast

lemma sorted_wrt_insertBy:
  assumes "consistentOn cmp (insert x (set ys))"
      and "sorted_wrt (\<lambda>a b. cmp a b \<le> 0) ys"
  shows "sorted_wrt (\<lambda>a b. cmp a b \<le> 0) (insertBy cmp x ys)"
  using assms
proof (induction ys)
  case Nil
  then show ?case by simp
next
  case (Cons y ys)
  let ?S = "insert x (set (y # ys))"
  note con = Cons.prems(1)
  have xS: "x \<in> ?S" and yS: "y \<in> ?S" by simp_all
  from Cons.prems(2) have yz: "cmp y z \<le> 0" if "z \<in> set ys" for z
    using that by simp
  from Cons.prems(2) have sys: "sorted_wrt (\<lambda>a b. cmp a b \<le> 0) ys" by simp
  show ?case
  proof (cases "cmp x y \<le> 0")
    case True
    have "cmp x z \<le> 0" if "z \<in> set ys" for z
    proof -
      from that have zS: "z \<in> ?S" by simp
      from consistentOn_trans [OF con xS yS zS True yz [OF that]] show ?thesis .
    qed
    with True Cons.prems(2) show ?thesis by simp
  next
    case False
    with consistentOn_total [OF con xS yS] have yx: "cmp y x \<le> 0" by simp
    have "insert x (set ys) \<subseteq> ?S" by auto
    with con have sub: "consistentOn cmp (insert x (set ys))" by (rule consistentOn_subset)
    from Cons.IH [OF sub sys] have s: "sorted_wrt (\<lambda>a b. cmp a b \<le> 0) (insertBy cmp x ys)" .
    have "cmp y z \<le> 0" if "z \<in> set (insertBy cmp x ys)" for z
      using that yx yz by (auto simp: set_insertBy)
    with s False show ?thesis by simp
  qed
qed

lemma sorted_wrt_sortBy:
  assumes "consistentOn cmp (set xs)"
  shows "sorted_wrt (\<lambda>a b. cmp a b \<le> 0) (sortBy cmp xs)"
  using assms
proof (induction xs)
  case Nil
  then show ?case by (simp add: sortBy_def)
next
  case (Cons x xs)
  have "consistentOn cmp (set xs)"
    using Cons.prems by (rule consistentOn_subset) auto
  then have s: "sorted_wrt (\<lambda>a b. cmp a b \<le> 0) (sortBy cmp xs)" by (rule Cons.IH)
  have "consistentOn cmp (insert x (set (sortBy cmp xs)))"
    using Cons.prems by (simp only: set_sortBy list.set)
  from sorted_wrt_insertBy [OF this s] show ?case by (simp add: sortBy_def)
qed

lemma minusSign_flip: "minusSign y x = - minusSign x y"
  by (cases x; cases y) auto

lemma minusSign_total: "minusSign x y \<le> 0 \<or> minusSign y x \<le> 0"
  by (cases x; cases y) auto

lemma minusSign_le:
  "(minusSign x y \<le> 0) =
     (case (x, y) of
        (Finite a, Finite b) \<Rightarrow> a \<le> b
      | (NegInfinity, _) \<Rightarrow> True
      | (_, PosInfinity) \<Rightarrow> True
      | _ \<Rightarrow> False)"
  by (cases x; cases y) simp_all

lemma minusSign_trans: "minusSign x y \<le> 0 \<Longrightarrow> minusSign y z \<le> 0 \<Longrightarrow> minusSign x z \<le> 0"
  unfolding minusSign_le by (cases x; cases y; cases z) simp_all

lemma compareRows_stated:
  "compareRows localeCompare i direction a b =
     compareCells_stated localeCompare (map_option toLowerCase direction = Some ''desc'')
       (cell a i) (cell b i)"
proof (cases "parseFloat (cell a i)")
  case None
  then show ?thesis by (simp add: compareRows_def compareCells_stated_def Let_def)
next
  case sa: (Some x)
  show ?thesis
  proof (cases "parseFloat (cell b i)")
    case None
    with sa show ?thesis by (simp add: compareRows_def compareCells_stated_def Let_def)
  next
    case (Some y)
    with sa minusSign_flip [of y x] show ?thesis
      by (auto simp: compareRows_def compareCells_stated_def Let_def)
  qed
qed

lemma sorted_wrt_limitRows: "sorted_wrt P rs \<Longrightarrow> sorted_wrt P (limitRows nq rs)"
  by (auto simp: limitRows_def sorted_wrt_take split: option.splits)

lemma orderRows_sorted:
  assumes "regexMatch orderRe nq = Some m"
      and "capture m 1 = Some column"
      and "headerIndex hs column = Some i"
  shows "orderRows localeCompare nq hs rs =
           sortBy (\<lambda>a b. compareCells_stated localeCompare
                      (map_option toLowerCase (capture m 2) = Some ''desc'') (cell a i) (cell b i)) rs"
proof -
  have "compareRows localeCompare i (capture m 2) =
        (\<lambda>a b. compareCells_stated localeCompare
                      (map_option toLowerCase (capture m 2) = Some ''desc'') (cell a i) (cell b i))"
    by (intro ext) (rule compareRows_stated)
  with assms show ?thesis by (simp add: orderRows_def)
qed

lemma consistentComparatorI:
  assumes "\<And>a. a \<in> S \<Longrightarrow> cmp a a = 0"
      and "\<And>a b. a \<in> S \<Longrightarrow> b \<in> S \<Longrightarrow> cmp a b = 0 \<Longrightarrow> cmp b a = 0"
      and "\<And>a b c. a \<in> S \<Longrightarrow> b \<in> S \<Longrightarrow> c \<in> S \<Longrightarrow> cmp a b = 0 \<Longrightarrow> cmp b c = 0 \<Longrightarrow> cmp a c = 0"
      and "\<And>a b c. a \<in> S \<Longrightarrow> b \<in> S \<Longrightarrow> c \<in> S \<Longrightarrow> cmp a b < 0 \<Longrightarrow> cmp b c < 0 \<Longrightarrow> cmp a c < 0"
      and "\<And>a b c. a \<in> S \<Longrightarrow> b \<in> S \<Longrightarrow> c \<in> S \<Longrightarrow> cmp a b > 0 \<Longrightarrow> cmp b c > 0 \<Longrightarrow> cmp a c > 0"
  shows "consistentComparator cmp S"
  unfolding consistentComparator_def
proof (intro conjI ballI impI)
  fix a assume "a \<in> S"
  then show "cmp a a = 0" by (rule assms(1))
next
  fix a b assume "a \<in> S" "b \<in> S" "cmp a b = 0"
  then show "cmp b a = 0" by (rule assms(2))
next
  fix a b c assume "a \<in> S" "b \<in> S" "c \<in> S" "cmp a b = 0 \<and> cmp b c = 0"
  then show "cmp a c = 0" using assms(3) [of a b c] by simp
next
  fix a b c assume "a \<in> S" "b \<in> S" "c \<in> S" "cmp a b < 0 \<and> cmp b c < 0"
  then show "cmp a c < 0" using assms(4) [of a b c] by simp
next
  fix a b c assume "a \<in> S" "b \<in> S" "c \<in> S" "0 < cmp a b \<and> 0 < cmp b c"
  then show "0 < cmp a c" using assms(5) [of a b c] by simp
qed

lemma cc_refl: "consistentComparator cmp S \<Longrightarrow> a \<in> S \<Longrightarrow> cmp a a = 0"
  unfolding consistentComparator_def by blast

lemma cc_sym: "consistentComparator cmp S \<Longrightarrow> a \<in> S \<Longrightarrow> b \<in> S \<Longrightarrow> cmp a b = 0 \<Longrightarrow> cmp b a = 0"
  unfolding consistentComparator_def by blast

lemma cc_trans_eq:
  "consistentComparator cmp S \<Longrightarrow> a \<in> S \<Longrightarrow> b \<in> S \<Longrightarrow> c \<in> S \<Longrightarrow>
   cmp a b = 0 \<Longrightarrow> cmp b c = 0 \<Longrightarrow> cmp a c = 0"
  unfolding consistentComparator_def by blast

lemma cc_trans_lt:
  "consistentComparator cmp S \<Longrightarrow> a \<in> S \<Longrightarrow> b \<in> S \<Longrightarrow> c \<in> S \<Longrightarrow>
   cmp a b < 0 \<Longrightarrow> cmp b c < 0 \<Longrightarrow> cmp a c < 0"
  unfolding consistentComparator_def by blast

lemma cc_trans_gt:
  "consistentComparator cmp S \<Longrightarrow> a \<in> S \<Longrightarrow> b \<in> S \<Longrightarrow> c \<in> S \<Longrightarrow>
   cmp a b > 0 \<Longrightarrow> cmp b c > 0 \<Longrightarrow> cmp a c > 0"
  unfolding consistentComparator_def by blast

text \<open>In a consistent comparison "after" one way is "before" the other way.\<close>

lemma cc_gt_lt:
  assumes "consistentComparator cmp S" "a \<in> S" "b \<in> S" "cmp a b > 0"
  shows "cmp b a < 0"
proof (rule ccontr)
  assume "\<not> cmp b a < 0"
  then consider "cmp b a = 0" | "cmp b a > 0" by linarith
  then show False
  proof cases
    case 1
    from cc_sym [OF assms(1) assms(3) assms(2) 1] assms(4) show False by simp
  next
    case 2
    from cc_trans_gt [OF assms(1) assms(2) assms(3) assms(2) assms(4) 2]
         cc_refl [OF assms(1) assms(2)] show False by simp
  qed
qed

lemma cc_lt_gt:
  assumes "consistentComparator cmp S" "a \<in> S" "b \<in> S" "cmp a b < 0"
  shows "cmp b a > 0"
proof (rule ccontr)
  assume "\<not> cmp b a > 0"
  then consider "cmp b a = 0" | "cmp b a < 0" by linarith
  then show False
  proof cases
    case 1
    from cc_sym [OF assms(1) assms(3) assms(2) 1] assms(4) show False by simp
  next
    case 2
    from cc_trans_lt [OF assms(1) assms(2) assms(3) assms(2) assms(4) 2]
         cc_refl [OF assms(1) assms(2)] show False by simp
  qed
qed

lemma cc_le_trans:
  assumes cc: "consistentComparator cmp S" and a: "a \<in> S" and b: "b \<in> S" and c: "c \<in> S"
      and ab: "cmp a b \<le> 0" and bc: "cmp b c \<le> 0"
  shows "cmp a c \<le> 0"
proof (rule ccontr)
  assume "\<not> cmp a c \<le> 0"
  then have ac: "cmp a c > 0" by simp
  from cc_gt_lt [OF cc a c ac] have ca: "cmp c a < 0" .
  from ab consider "cmp a b < 0" | "cmp a b = 0" by linarith
  then show False
  proof cases
    case 1
    from cc_trans_lt [OF cc c a b ca 1] have "cmp c b < 0" .
    from cc_lt_gt [OF cc c b this] bc show False by simp
  next
    case ab0: 2
    from bc consider "cmp b c < 0" | "cmp b c = 0" by linarith
    then show False
    proof cases
      case 1
      from cc_trans_lt [OF cc b c a 1 ca] have "cmp b a < 0" .
      with cc_sym [OF cc a b ab0] show False by simp
    next
      case 2
      from cc_trans_eq [OF cc a b c ab0 2] ac show False by simp
    qed
  qed
qed

lemma consistentComparator_consistentOn:
  assumes "consistentComparator cmp S"
  shows "consistentOn cmp S"
  unfolding consistentOn_def
proof (intro conjI ballI impI)
  fix a b assume a: "a \<in> S" and b: "b \<in> S"
  show "cmp a b \<le> 0 \<or> cmp b a \<le> 0"
  proof (cases "cmp a b \<le> 0")
    case False
    then have "cmp a b > 0" by simp
    from cc_gt_lt [OF assms a b this] show ?thesis by simp
  qed simp
next
  fix a b c assume "a \<in> S" "b \<in> S" "c \<in> S" "cmp a b \<le> 0 \<and> cmp b c \<le> 0"
  then show "cmp a c \<le> 0" using cc_le_trans [OF assms, of a b c] by simp
qed

text \<open>
  Insertion sort is stable for a consistent comparison: the rows that compare equal to
  a given row keep their order.
\<close>

lemma filter_insertBy:
  assumes "consistentComparator cmp S" "a \<in> S" "x \<in> S" "set ys \<subseteq> S"
  shows "filter (\<lambda>r. cmp r a = 0) (insertBy cmp x ys) =
           (if cmp x a = 0 then x # filter (\<lambda>r. cmp r a = 0) ys else filter (\<lambda>r. cmp r a = 0) ys)"
  using assms(4)
proof (induction ys)
  case Nil
  then show ?case by simp
next
  case (Cons y ys)
  then have y: "y \<in> S" and ys: "set ys \<subseteq> S" by simp_all
  note IH = Cons.IH [OF ys]
  show ?case
  proof (cases "cmp x y \<le> 0")
    case True
    then show ?thesis by simp
  next
    case False
    have "\<not> (cmp x a = 0 \<and> cmp y a = 0)"
    proof
      assume e: "cmp x a = 0 \<and> cmp y a = 0"
      then have "cmp a y = 0" using cc_sym [OF assms(1) y assms(2)] by simp
      with e have "cmp x y = 0" using cc_trans_eq [OF assms(1) assms(3) assms(2) y] by simp
      with False show False by simp
    qed
    with False IH show ?thesis by auto
  qed
qed

lemma filter_sortBy:
  assumes "consistentComparator cmp S" "a \<in> S" "set xs \<subseteq> S"
  shows "filter (\<lambda>r. cmp r a = 0) (sortBy cmp xs) = filter (\<lambda>r. cmp r a = 0) xs"
  using assms(3)
proof (induction xs)
  case Nil
  then show ?case by (simp add: sortBy_def)
next
  case (Cons x xs)
  then have x: "x \<in> S" and xs: "set xs \<subseteq> S" by simp_all
  have s: "set (sortBy cmp xs) \<subseteq> S" using xs by (simp add: set_sortBy)
  have "sortBy cmp (x # xs) = insertBy cmp x (sortBy cmp xs)" by (simp add: sortBy_def)
  then show ?case
    using filter_insertBy [OF assms(1) assms(2) x s] Cons.IH [OF xs] by simp
qed

lemma minusSign_refl: "minusSign x x = 0"
  by (cases x) simp_all

lemma minusSign_lt:
  "(minusSign x y < 0) =
     (case (x, y) of
        (Finite a, Finite b) \<Rightarrow> a < b
      | (NegInfinity, NegInfinity) \<Rightarrow> False
      | (NegInfinity, _) \<Rightarrow> True
      | (PosInfinity, _) \<Rightarrow> False
      | (Finite a, PosInfinity) \<Rightarrow> True
      | (Finite a, NegInfinity) \<Rightarrow> False)"
  by (cases x; cases y) simp_all

lemma minusSign_eq: "(minusSign x y = 0) = (x = y)"
  by (cases x; cases y) simp_all

lemma minusSign_trans_lt: "minusSign x y < 0 \<Longrightarrow> minusSign y z < 0 \<Longrightarrow> minusSign x z < 0"
  unfolding minusSign_lt by (cases x; cases y; cases z) simp_all

lemma numeric_comparator_consistent: "consistentComparator (\<lambda>a b. minusSign (v a) (v b)) S"
proof (rule consistentComparatorI)
  fix a b c
  show "minusSign (v a) (v a) = 0" by (rule minusSign_refl)
  show "minusSign (v a) (v b) = 0 \<Longrightarrow> minusSign (v b) (v a) = 0" by (simp add: minusSign_eq)
  show "minusSign (v a) (v b) = 0 \<Longrightarrow> minusSign (v b) (v c) = 0 \<Longrightarrow> minusSign (v a) (v c) = 0"
    by (simp add: minusSign_eq)
  show "minusSign (v a) (v b) < 0 \<Longrightarrow> minusSign (v b) (v c) < 0 \<Longrightarrow> minusSign (v a) (v c) < 0"
    by (rule minusSign_trans_lt)
  show "0 < minusSign (v a) (v b) \<Longrightarrow> 0 < minusSign (v b) (v c) \<Longrightarrow> 0 < minusSign (v a) (v c)"
  proof -
    assume "0 < minusSign (v a) (v b)" "0 < minusSign (v b) (v c)"
    then have "minusSign (v c) (v b) < 0" "minusSign (v b) (v a) < 0"
      using minusSign_flip [of "v c" "v b"] minusSign_flip [of "v b" "v a"] by simp_all
    then have "minusSign (v c) (v a) < 0" by (rule minusSign_trans_lt)
    then show ?thesis using minusSign_flip [of "v c" "v a"] by simp
  qed
qed

lemma consistentComparator_negate:
  assumes "consistentComparator cmp S"
  shows "consistentComparator (\<lambda>a b. - cmp a b) S"
proof (rule consistentComparatorI)
  fix a b c assume a: "a \<in> S"
  show "- cmp a a = 0" using cc_refl [OF assms a] by simp
  assume b: "b \<in> S"
  show "- cmp a b = 0 \<Longrightarrow> - cmp b a = 0" using cc_sym [OF assms a b] by simp
  assume c: "c \<in> S"
  show "- cmp a b = 0 \<Longrightarrow> - cmp b c = 0 \<Longrightarrow> - cmp a c = 0"
    using cc_trans_eq [OF assms a b c] by simp
  show "- cmp a b < 0 \<Longrightarrow> - cmp b c < 0 \<Longrightarrow> - cmp a c < 0"
    using cc_trans_gt [OF assms a b c] by simp
  show "0 < - cmp a b \<Longrightarrow> 0 < - cmp b c \<Longrightarrow> 0 < - cmp a c"
    using cc_trans_lt [OF assms a b c] by simp
qed

lemma consistentComparator_cong:
  assumes "consistentComparator cmp S" and "\<And>a b. a \<in> S \<Longrightarrow> b \<in> S \<Longrightarrow> cmp' a b = cmp a b"
  shows "consistentComparator cmp' S"
proof (rule consistentComparatorI)
  fix a b c assume a: "a \<in> S"
  show "cmp' a a = 0" using cc_refl [OF assms(1) a] assms(2) [OF a a] by simp
  assume b: "b \<in> S"
  show "cmp' a b = 0 \<Longrightarrow> cmp' b a = 0"
    using cc_sym [OF assms(1) a b] assms(2) [OF a b] assms(2) [OF b a] by simp
  assume c: "c \<in> S"
  show "cmp' a b = 0 \<Longrightarrow> cmp' b c = 0 \<Longrightarrow> cmp' a c = 0"
    using cc_trans_eq [OF assms(1) a b c] assms(2) [OF a b] assms(2) [OF b c] assms(2) [OF a c] by simp
  show "cmp' a b < 0 \<Longrightarrow> cmp' b c < 0 \<Longrightarrow> cmp' a c < 0"
    using cc_trans_lt [OF assms(1) a b c] assms(2) [OF a b] assms(2) [OF b c] assms(2) [OF a c] by simp
  show "0 < cmp' a b \<Longrightarrow> 0 < cmp' b c \<Longrightarrow> 0 < cmp' a c"
    using cc_trans_gt [OF assms(1) a b c] assms(2) [OF a b] assms(2) [OF b c] assms(2) [OF a c] by simp
qed

text \<open>On a column whose cells all parse as numbers the comparison is consistent.\<close>

lemma numeric_column_consistent:
  assumes "\<forall>r \<in> S. parseFloat (cell r i) \<noteq> None"
  shows "consistentComparator
           (\<lambda>a b. compareCells_stated localeCompare descending (cell a i) (cell b i)) S"
proof -
  let ?v = "\<lambda>r. the (parseFloat (cell r i))"
  let ?num = "\<lambda>a b. minusSign (?v a) (?v b)"
  have eqn: "compareCells_stated localeCompare descending (cell a i) (cell b i) =
             (if descending then - ?num a b else ?num a b)"
    if "a \<in> S" "b \<in> S" for a b
  proof -
    from assms that(1) obtain x where x: "parseFloat (cell a i) = Some x" by auto
    from assms that(2) obtain y where y: "parseFloat (cell b i) = Some y" by auto
    show ?thesis by (simp add: compareCells_stated_def x y)
  qed
  show ?thesis
  proof (cases descending)
    case False
    with eqn have "compareCells_stated localeCompare descending (cell a i) (cell b i) = ?num a b"
      if "a \<in> S" "b \<in> S" for a b
      using that by simp
    with numeric_comparator_consistent [of ?v S] show ?thesis
      by (rule consistentComparator_cong)
  next
    case True
    with eqn have "compareCells_stated localeCompare descending (cell a i) (cell b i) = - ?num a b"
      if "a \<in> S" "b \<in> S" for a b
      using that by simp
    with consistentComparator_negate [OF numeric_comparator_consistent [of ?v S]] show ?thesis
      by (rule consistentComparator_cong)
  qed
qed

text \<open>\<open>floorLog2\<close> is the binary exponent of a positive rational.\<close>

lemma bitLength_bounds:
  "0 < n \<Longrightarrow> 0 < bitLength n \<and> 2 ^ (nat (bitLength n) - 1) \<le> n \<and> n < 2 ^ nat (bitLength n)"
proof (induction n rule: bitLength.induct)
  case (1 n)
  have e: "bitLength n = 1 + bitLength (n div 2)"
    using 1(2) by (subst bitLength.simps) simp
  show ?case
  proof (cases "n div 2 = 0")
    case True
    then have "bitLength (n div 2) = 0" by (subst bitLength.simps) simp
    moreover from True 1(2) have "n = 1" by presburger
    ultimately show ?thesis using e by simp
  next
    case False
    with 1(2) have p: "0 < n div 2" by presburger
    from 1(2) have "\<not> n \<le> 0" by simp
    from 1(1) [OF this p] have
      l: "0 < bitLength (n div 2)" and
      lo: "2 ^ (nat (bitLength (n div 2)) - 1) \<le> n div 2" and
      hi: "n div 2 < 2 ^ nat (bitLength (n div 2))"
      by simp_all
    let ?l = "nat (bitLength (n div 2))"
    from l have lp: "0 < ?l" by simp
    have nl: "nat (bitLength n) = Suc ?l" using e l by simp
    have "2 * (n div 2) \<le> n" by presburger
    with lo have "2 * 2 ^ (?l - 1) \<le> n" by linarith
    moreover have "(2::int) * 2 ^ (?l - 1) = 2 ^ ?l"
      using lp by (cases ?l) simp_all
    ultimately have a: "2 ^ ?l \<le> n" by simp
    from hi have "n div 2 + 1 \<le> 2 ^ ?l" by simp
    moreover have "n < 2 * (n div 2 + 1)" by presburger
    ultimately have b: "n < 2 * 2 ^ ?l" by linarith
    have c: "0 < bitLength n" using e l by simp
    from a b c show ?thesis unfolding nl by simp
  qed
qed

lemma pow2_diff: "pow2 (int x - int y) = 2 ^ x / 2 ^ y"
proof (cases "y \<le> x")
  case True
  then have "nat (int x - int y) = x - y" by simp
  with True show ?thesis by (simp add: pow2_def power_diff)
next
  case False
  then have "nat (- (int x - int y)) = y - x" by simp
  moreover from False have "(2::rat) ^ x / 2 ^ y = 1 / 2 ^ (y - x)"
    by (simp add: power_diff field_simps)
  ultimately show ?thesis using False by (simp add: pow2_def)
qed

lemma floorLog2_bounds:
  assumes "0 < q"
  shows "pow2 (floorLog2 q) \<le> q \<and> q < pow2 (floorLog2 q + 1)"
proof -
  obtain a b where ab: "quotient_of q = (a, b)" by (cases "quotient_of q")
  then have b: "0 < b" using quotient_of_denom_pos by blast
  from ab have q: "q = of_int a / of_int b" by (rule quotient_of_div)
  with assms b have a: "0 < a" by (simp add: zero_less_divide_iff)
  let ?la = "nat (bitLength a)" and ?lb = "nat (bitLength b)"
  from bitLength_bounds [OF a] have la: "0 < ?la" "2 ^ (?la - 1) \<le> a" "a < 2 ^ ?la" by simp_all
  from bitLength_bounds [OF b] have lb: "0 < ?lb" "2 ^ (?lb - 1) \<le> b" "b < 2 ^ ?lb" by simp_all
  have k: "bitLength a - bitLength b = int ?la - int ?lb"
    using la(1) lb(1) by simp
  have ra: "(2::rat) ^ (?la - 1) \<le> of_int a" "of_int a < (2::rat) ^ ?la"
    using la(2,3) by (metis of_int_le_iff of_int_numeral of_int_power, metis of_int_less_iff of_int_numeral of_int_power)
  have rb: "(2::rat) ^ (?lb - 1) \<le> of_int b" "of_int b < (2::rat) ^ ?lb"
    using lb(2,3) by (metis of_int_le_iff of_int_numeral of_int_power, metis of_int_less_iff of_int_numeral of_int_power)
  have bpos: "(0::rat) < of_int b" using b by simp
  have twoa: "(2::rat) ^ ?la = 2 * 2 ^ (?la - 1)" using la(1) by (cases ?la) simp_all
  have twob: "(2::rat) ^ ?lb = 2 * 2 ^ (?lb - 1)" using lb(1) by (cases ?lb) simp_all
  \<comment> \<open>\<open>2^(la - lb) / 2 < q < 2 * 2^(la - lb)\<close>\<close>
  have up: "q < 2 * (2 ^ ?la / 2 ^ ?lb)"
  proof -
    have "q < 2 ^ ?la / of_int b" unfolding q using ra(2) bpos by (simp add: divide_strict_right_mono)
    also have "\<dots> \<le> 2 ^ ?la / 2 ^ (?lb - 1)" using rb(1) by (simp add: frac_le)
    also have "\<dots> = 2 * (2 ^ ?la / 2 ^ ?lb)" by (simp add: twob)
    finally show ?thesis .
  qed
  have low: "(2 ^ ?la / 2 ^ ?lb) / 2 < q"
  proof -
    have "(2 ^ ?la / 2 ^ ?lb) / 2 = 2 ^ (?la - 1) / (2::rat) ^ ?lb" by (simp add: twoa)
    also have "\<dots> < 2 ^ (?la - 1) / of_int b" using rb(2) bpos by (simp add: frac_less2)
    also have "\<dots> \<le> q" unfolding q using ra(1) bpos by (simp add: divide_right_mono)
    finally show ?thesis .
  qed
  let ?k = "int ?la - int ?lb"
  have pk: "pow2 ?k = 2 ^ ?la / 2 ^ ?lb" by (rule pow2_diff)
  have pk1: "pow2 (?k + 1) = 2 * (2 ^ ?la / 2 ^ ?lb)"
    using pow2_diff [of "Suc ?la" ?lb] by (simp add: algebra_simps)
  have pkm: "pow2 (?k - 1) = (2 ^ ?la / 2 ^ ?lb) / 2"
    using pow2_diff [of ?la "Suc ?lb"] by (simp add: algebra_simps)
  show ?thesis
  proof (cases "pow2 ?k \<le> q")
    case True
    then have "floorLog2 q = ?k" by (simp add: floorLog2_def ab k)
    with True up pk1 show ?thesis by simp
  next
    case False
    then have "floorLog2 q = ?k - 1" by (simp add: floorLog2_def ab k)
    with False low pkm show ?thesis by simp
  qed
qed

text \<open>
  \<open>binary64\<close> returns a multiple of the quantum of its binade with a significand of at
  most 53 bits, at most half a quantum away from its argument.
\<close>

lemma roundHalfEven_near: "\<bar>x - of_int (roundHalfEven x)\<bar> \<le> 1 / 2"
proof -
  have "of_int \<lfloor>x\<rfloor> \<le> x" "x < of_int \<lfloor>x\<rfloor> + 1" by linarith+
  then show ?thesis by (auto simp: roundHalfEven_def Let_def)
qed

lemma pow2_powi: "pow2 e = 2 powi e"
  by (simp add: pow2_def power_int_def field_simps)

lemma pow2_pos: "0 < pow2 e"
  by (simp add: pow2_def)

lemma near_bounds:
  fixes x :: rat
  assumes "\<bar>x - of_int n\<bar> \<le> 1 / 2" "0 < x" "x < of_int B"
  shows "0 \<le> n \<and> n \<le> B"
proof -
  from assms(1) have "x - of_int n \<le> 1 / 2" "- (x - of_int n) \<le> 1 / 2"
    by (simp_all only: abs_le_iff)
  with assms(2,3) have "(of_int n :: rat) < of_int B + 1" "(- 1 :: rat) < of_int n"
    by linarith+
  then have "(of_int n :: rat) < of_int (B + 1)" "(of_int (- 1) :: rat) < of_int n"
    by simp_all
  then have "n < B + 1" "- 1 < n" by (simp_all only: of_int_less_iff)
  then show ?thesis by simp
qed

lemma binary64_near:
  assumes "binary64 q = Finite r"
  shows "\<exists>n. r = of_int n * pow2 (max (floorLog2 \<bar>q\<bar>) (- 1022) - 52) \<and> \<bar>n\<bar> \<le> 2 ^ 53 \<and>
             \<bar>q - r\<bar> \<le> pow2 (max (floorLog2 \<bar>q\<bar>) (- 1022) - 52) / 2"
proof (cases "q = 0")
  case True
  with assms have "r = 0" by (simp add: binary64_def)
  with True show ?thesis using pow2_pos [of "max (floorLog2 \<bar>q\<bar>) (- 1022) - 52"]
    by (intro exI [of _ 0]) simp
next
  case False
  define a where "a = \<bar>q\<bar>"
  define e where "e = max (floorLog2 a) (- 1022)"
  define u where "u = pow2 (e - 52)"
  define n where "n = roundHalfEven (a / u)"
  have u: "0 < u" unfolding u_def by (rule pow2_pos)
  from False have a: "0 < a" by (simp add: a_def)
  from assms False have r: "r = (if q < 0 then - 1 else 1) * of_int n * u"
    by (simp add: binary64_def Let_def a_def e_def u_def n_def split: if_splits)
  have near: "\<bar>a / u - of_int n\<bar> \<le> 1 / 2" unfolding n_def by (rule roundHalfEven_near)
  have au: "a - of_int n * u = (a / u - of_int n) * u"
    using u by (simp add: field_simps)
  have "\<bar>a - of_int n * u\<bar> = \<bar>a / u - of_int n\<bar> * \<bar>u\<bar>"
    unfolding au by (rule abs_mult)
  also have "\<dots> = \<bar>a / u - of_int n\<bar> * u" using u by simp
  also have "\<dots> \<le> 1 / 2 * u" using near u by (rule mult_right_mono [OF _ less_imp_le])
  finally have d0: "\<bar>a - of_int n * u\<bar> \<le> u / 2" by simp
  have "a < pow2 (floorLog2 a + 1)" using floorLog2_bounds [OF a] by simp
  also have "\<dots> \<le> pow2 (e + 1)"
    unfolding pow2_powi e_def by (rule power_int_increasing) simp_all
  finally have "a < pow2 (e + 1)" .
  moreover have "pow2 (e + 1) = 2 ^ 53 * u"
  proof -
    have "e + 1 = 53 + (e - 52)" by simp
    then have "pow2 (e + 1) = 2 powi (53 + (e - 52))" by (simp only: pow2_powi)
    also have "\<dots> = 2 powi 53 * 2 powi (e - 52)" by (rule power_int_add) simp
    finally show ?thesis by (simp add: pow2_powi u_def)
  qed
  ultimately have "a / u < 2 ^ 53" using u by (simp add: pos_divide_less_eq)
  then have lt: "a / u < of_int (2 ^ 53)" by simp
  have pos: "0 < a / u" using a u by simp
  from near_bounds [OF near pos lt] have n: "\<bar>n\<bar> \<le> 2 ^ 53" by simp
  show ?thesis
  proof (cases "q < 0")
    case True
    then have q: "q = - a" by (simp add: a_def)
    from True r have r': "r = of_int (- n) * u" by simp
    have "\<bar>q - r\<bar> = \<bar>a - of_int n * u\<bar>"
      unfolding q r' by (simp add: abs_minus_commute)
    with d0 have "\<bar>q - r\<bar> \<le> u / 2" by simp
    moreover have "\<bar>- n\<bar> \<le> 2 ^ 53" using n by simp
    ultimately have "r = of_int (- n) * u \<and> \<bar>- n\<bar> \<le> 2 ^ 53 \<and> \<bar>q - r\<bar> \<le> u / 2"
      using r' by simp
    then show ?thesis unfolding u_def e_def a_def by (rule exI)
  next
    case False
    then have q: "q = a" by (simp add: a_def)
    from False r have r': "r = of_int n * u" by simp
    have "\<bar>q - r\<bar> = \<bar>a - of_int n * u\<bar>" unfolding q r' by simp
    with d0 have "\<bar>q - r\<bar> \<le> u / 2" by simp
    with n r' have "r = of_int n * u \<and> \<bar>n\<bar> \<le> 2 ^ 53 \<and> \<bar>q - r\<bar> \<le> u / 2" by simp
    then show ?thesis unfolding u_def e_def a_def by (rule exI)
  qed
qed

section \<open>Properties of the loaders\<close>

lemma length_normalizeRow: "length (normalizeRow w row) = w"
  by (simp add: normalizeRow_def padRow_def)

lemma normalizeRow_short: "length row \<le> w \<Longrightarrow> normalizeRow w row = row @ replicate (w - length row) []"
  by (simp add: normalizeRow_def padRow_def)

lemma normalizeRow_long: "w \<le> length row \<Longrightarrow> normalizeRow w row = take w row"
  by (simp add: normalizeRow_def padRow_def)

text \<open>
  Every row that the loop of \<open>parseCSV\<close> adds is the normalised parse of the logical
  row starting at some physical line.
\<close>

lemma parseCSV_loop_rows:
  assumes "\<forall>row \<in> set rws. \<exists>k < length lines. row = normalizeRow (length hdrs) (fst (parseCSVRow lines k))"
  shows "\<forall>row \<in> set (parseCSV_loop lines hdrs i rws).
           \<exists>k < length lines. row = normalizeRow (length hdrs) (fst (parseCSVRow lines k))"
  using assms
proof (induction lines hdrs i rws rule: parseCSV_loop.induct)
  case (1 lines hdrs i rws)
  show ?case
  proof (cases "i < length lines")
    case False
    then have "parseCSV_loop lines hdrs i rws = rws"
      by (subst parseCSV_loop.simps) simp
    with 1(3) show ?thesis by simp
  next
    case inb: True
    show ?thesis
    proof (cases "trim (lines ! i) = []")
      case True
      then have "parseCSV_loop lines hdrs i rws = parseCSV_loop lines hdrs (i + 1) rws"
        using inb by (subst parseCSV_loop.simps) simp
      with 1(1) [OF inb True 1(3)] show ?thesis by simp
    next
      case False
      obtain row nextIndex where p: "parseCSVRow lines i = (row, nextIndex)"
        by (cases "parseCSVRow lines i")
      let ?rws = "if length row > 0 then rws @ [normalizeRow (length hdrs) row] else rws"
      have e: "parseCSV_loop lines hdrs i rws = parseCSV_loop lines hdrs nextIndex ?rws"
        using inb False p by (subst parseCSV_loop.simps) simp
      have "\<forall>r \<in> set ?rws. \<exists>k < length lines. r = normalizeRow (length hdrs) (fst (parseCSVRow lines k))"
        using 1(3) inb p by auto
      from 1(2) [OF inb False p [symmetric] refl this] show ?thesis
        unfolding e .
    qed
  qed
qed

text \<open>
  C7. Every row of a loaded table has exactly as many cells as the header: the server's
  \<open>parseCSV\<close> stores the normalised parse of a logical row, the client's loader stores
  the normalised (and trimmed) row of the tokeniser, and normalising a row to width \<open>w\<close>
  appends empty strings to a shorter row and cuts a longer row after \<open>w\<close> cells.
\<close>

theorem C7_rows_have_header_width:
  "(\<forall>row \<in> set (rows (parseCSV csvText)).
      length row = length (headers (parseCSV csvText)) \<and>
      (\<exists>k < length (split (CHR 0x0A) csvText).
         row = normalizeRow (length (headers (parseCSV csvText)))
                 (fst (parseCSVRow (split (CHR 0x0A) csvText) k)))) \<and>
   (\<forall>t. loadCSVData_complete data = Inr t \<longrightarrow>
      (\<forall>row \<in> set (rows t). length row = length (headers t))) \<and>
   (\<forall>w cells. length (normalizeRow w cells) = w \<and>
      (length cells \<le> w \<longrightarrow> normalizeRow w cells = cells @ replicate (w - length cells) []) \<and>
      (w \<le> length cells \<longrightarrow> normalizeRow w cells = take w cells))"
proof (intro conjI)
  let ?lines = "split (CHR 0x0A) csvText"
  have ne: "?lines \<noteq> []" by (cases csvText) (auto split: list.splits)
  let ?h = "parseCSVLine (?lines ! 0)"
  have t: "parseCSV csvText = \<lparr>headers = ?h, rows = parseCSV_loop ?lines ?h 1 []\<rparr>"
    using ne by (simp add: parseCSV_def Let_def)
  have "\<forall>row \<in> set (parseCSV_loop ?lines ?h 1 []).
          \<exists>k < length ?lines. row = normalizeRow (length ?h) (fst (parseCSVRow ?lines k))"
    by (rule parseCSV_loop_rows) simp
  then show "\<forall>row \<in> set (rows (parseCSV csvText)).
      length row = length (headers (parseCSV csvText)) \<and>
      (\<exists>k < length ?lines.
         row = normalizeRow (length (headers (parseCSV csvText))) (fst (parseCSVRow ?lines k)))"
    unfolding t by (auto simp: length_normalizeRow)
next
  show "\<forall>t. loadCSVData_complete data = Inr t \<longrightarrow>
      (\<forall>row \<in> set (rows t). length row = length (headers t))"
    by (auto simp: loadCSVData_complete_def Let_def length_normalizeRow split: if_splits)
next
  show "\<forall>w cells. length (normalizeRow w cells) = w \<and>
      (length cells \<le> w \<longrightarrow> normalizeRow w cells = cells @ replicate (w - length cells) []) \<and>
      (w \<le> length cells \<longrightarrow> normalizeRow w cells = take w cells)"
    by (simp add: length_normalizeRow normalizeRow_short normalizeRow_long)
qed

theorem C7_rows_have_header_width_witness:
  "rows (parseCSV ''a,b\<newline>1\<newline>1,2,3'') = [[''1'', ''''], [''1'', ''2'']] \<and>
   headers (parseCSV ''a,b\<newline>1\<newline>1,2,3'') = [''a'', ''b''] \<and>
   loadCSVData_complete [[''a'', ''b''], [''1''], ['' '', ''''], [''1'', ''2 '', ''3'']] =
     Inr \<lparr>headers = [''a'', ''b''], rows = [[''1'', ''''], [''1'', ''2'']]\<rparr> \<and>
   length [''1'', ''''] = length [''a'', ''b''] \<and> length [''1'', ''2''] = length [''a'', ''b'']"
proof -
  let ?txt = "''a,b\<newline>1\<newline>1,2,3''"
  let ?data = "[[''a'', ''b''], [''1''], ['' '', ''''], [''1'', ''2 '', ''3'']]"
  have p: "parseCSV ?txt = \<lparr>headers = [''a'', ''b''], rows = [[''1'', ''''], [''1'', ''2'']]\<rparr>"
    by code_simp
  have l: "loadCSVData_complete ?data =
      Inr \<lparr>headers = [''a'', ''b''], rows = [[''1'', ''''], [''1'', ''2'']]\<rparr>"
    by code_simp
  from C7_rows_have_header_width [of ?txt ?data] p l show ?thesis
    by simp
qed

text \<open>
  C2 (as stated it fails). The server's loader is a total function of the text: nothing in
  \<open>parseCSV\<close>, \<open>parseCSVLine\<close> or \<open>parseCSVRow\<close> throws. On the empty text
  \<open>split\<close> yields the one line \<open>""\<close>, and the loader returns a table.
\<close>

theorem C2_parseCSV_empty_text_returns_table:
  "parseCSV '''' = \<lparr>headers = [''''], rows = []\<rparr>"
  by code_simp

text \<open>
  C2 (amended). The client's loader fails exactly when the tokeniser delivers no line at
  all, and then with the error "No data found in CSV"; the server's \<open>parseCSV\<close> does not
  fail on the empty text: it returns a table without rows.
\<close>

theorem C2_empty_input_by_loader:
  "isl (loadCSVData_complete data) = (data = []) \<and>
   loadCSVData_complete [] = Inl (Error ''No data found in CSV'') \<and>
   rows (parseCSV '''') = []"
proof (intro conjI)
  show "isl (loadCSVData_complete data) = (data = [])"
    by (simp add: loadCSVData_complete_def Let_def)
  show "loadCSVData_complete [] = Inl (Error ''No data found in CSV'')"
    by (simp add: loadCSVData_complete_def)
  show "rows (parseCSV '''') = []"
    by code_simp
qed

text \<open>
  C4. A query whose lower-cased text does not contain \<open>select\<close> is answered, by both
  engines, with the fixed result: the column \<open>message\<close>, one row holding the sentence
  "Query type not supported. Please use SELECT statements." and row count 1. The engines
  are total functions: no step of theirs throws. The client leaves the table as it was.
\<close>

theorem C4_unsupported_query:
  assumes "\<not> includesStr (toLowerCase query) ''select''"
  shows "executeCSVQuery localeCompare query data =
           (\<lparr>columns = [Some ''message''],
             resultRows = [[''Query type not supported. Please use SELECT statements.'']],
             rowCount = 1\<rparr>, data) \<and>
         executeCSVQuery_server query data =
           \<lparr>columns = [Some ''message''],
            resultRows = [[''Query type not supported. Please use SELECT statements.'']],
            rowCount = 1\<rparr>"
proof -
  from assms have "\<not> includesStr (trim (toLowerCase query)) ''select''"
    using includesStr_trim by blast
  then show ?thesis
    by (simp add: executeCSVQuery_def executeCSVQuery_server_def unsupported_def)
qed

theorem C4_unsupported_query_witness:
  "\<not> includesStr (toLowerCase ''DROP TABLE t'') ''select'' \<and>
   executeCSVQuery compareCodeUnits ''DROP TABLE t'' \<lparr>headers = [''a''], rows = [[''1'']]\<rparr> =
     (\<lparr>columns = [Some ''message''],
       resultRows = [[''Query type not supported. Please use SELECT statements.'']],
       rowCount = 1\<rparr>, \<lparr>headers = [''a''], rows = [[''1'']]\<rparr>) \<and>
   executeCSVQuery_server ''DROP TABLE t'' \<lparr>headers = [''a''], rows = [[''1'']]\<rparr> =
     \<lparr>columns = [Some ''message''],
      resultRows = [[''Query type not supported. Please use SELECT statements.'']],
      rowCount = 1\<rparr>"
proof -
  have h: "\<not> includesStr (toLowerCase ''DROP TABLE t'') ''select''"
    by code_simp
  from C4_unsupported_query [OF h] h show ?thesis
    by blast
qed

text \<open>
  C9. On a table whose rows have the width of its header, \<open>SELECT * FROM t\<close> returns
  the headers as columns, in their order, and the rows as they are, in their order, with
  the row count the number of rows; this holds for both engines.
\<close>

theorem C9_select_star:
  assumes "\<forall>row \<in> set (rows t). length row = length (headers t)"
  shows "executeCSVQuery localeCompare ''SELECT * FROM t'' t =
           (\<lparr>columns = map Some (headers t), resultRows = rows t,
             rowCount = length (rows t)\<rparr>, t) \<and>
         executeCSVQuery_server ''SELECT * FROM t'' t =
           \<lparr>columns = map Some (headers t), resultRows = rows t,
            rowCount = length (rows t)\<rparr>"
proof -
  have nq: "trim (toLowerCase ''SELECT * FROM t'') = ''select * from t''"
    by code_simp
  have inc: "includesStr ''select * from t'' ''select''"
    by code_simp
  have sel: "regexMatch selectRe ''select * from t'' = Some [(1, ''*'')]"
    by code_simp
  have star: "trim ''*'' = ''*''"
    by code_simp
  have whr: "regexMatch whereRe ''select * from t'' = None"
    by code_simp
  have ord: "regexMatch orderRe ''select * from t'' = None"
    by code_simp
  have lim: "regexMatch limitRe ''select * from t'' = None"
    by code_simp
  have cols: "selectColumns (headers t) ''select * from t'' =
      (map Some (headers t), [0 ..< length (headers t)])"
    by (simp add: selectColumns_def sel capture_def star)
  have flt: "filterRows ''select * from t'' t = rows t"
    by (simp add: filterRows_def whr)
  have flts: "filterRows_server ''select * from t'' t = rows t"
    by (simp add: filterRows_server_def whr)
  have srt: "orderRows localeCompare ''select * from t'' (headers t) (rows t) = rows t"
    by (simp add: orderRows_def ord)
  have lmt: "limitRows ''select * from t'' (rows t) = rows t"
    by (simp add: limitRows_def lim)
  have prj: "map (\<lambda>row. map (cell row) [0 ..< length (headers t)]) (rows t) = rows t"
    using assms by (rule project_all_rows)
  have "executeCSVQuery localeCompare ''SELECT * FROM t'' t =
           (\<lparr>columns = map Some (headers t), resultRows = rows t,
             rowCount = length (rows t)\<rparr>, t)"
    using inc by (simp add: executeCSVQuery_select nq cols flt srt lmt prj whr)
  moreover have "executeCSVQuery_server ''SELECT * FROM t'' t =
           \<lparr>columns = map Some (headers t), resultRows = rows t,
            rowCount = length (rows t)\<rparr>"
    using inc by (simp add: executeCSVQuery_server_select nq cols flts lmt prj)
  ultimately show ?thesis by blast
qed

theorem C9_select_star_witness:
  "executeCSVQuery compareCodeUnits ''SELECT * FROM t''
      \<lparr>headers = [''a'', ''b''], rows = [[''1'', ''2''], [''3'', ''4'']]\<rparr> =
     (\<lparr>columns = [Some ''a'', Some ''b''], resultRows = [[''1'', ''2''], [''3'', ''4'']],
       rowCount = 2\<rparr>,
      \<lparr>headers = [''a'', ''b''], rows = [[''1'', ''2''], [''3'', ''4'']]\<rparr>) \<and>
   executeCSVQuery_server ''SELECT * FROM t''
      \<lparr>headers = [''a'', ''b''], rows = [[''1'', ''2''], [''3'', ''4'']]\<rparr> =
     \<lparr>columns = [Some ''a'', Some ''b''], resultRows = [[''1'', ''2''], [''3'', ''4'']],
      rowCount = 2\<rparr>"
  using C9_select_star [of "\<lparr>headers = [''a'', ''b''], rows = [[''1'', ''2''], [''3'', ''4'']]\<rparr>"
                          compareCodeUnits]
  by simp


text \<open>
  C10. When the normalised query contains \<open>select\<close> but the pattern
  \<open>select <columns> from\<close> matches nowhere in it, both engines project onto all columns:
  the result's columns are the headers in table order, and each result row lists the cells
  of a surviving row at the indices \<open>0, ..., length headers - 1\<close>; on a table whose rows
  have the width of the header the result rows are the surviving rows themselves.
\<close>

theorem C10_no_select_from_pattern:
  assumes "nq = trim (toLowerCase query)"
      and "includesStr nq ''select''"
      and "regexMatch selectRe nq = None"
  shows "columns (fst (executeCSVQuery localeCompare query data)) = map Some (headers data) \<and>
         resultRows (fst (executeCSVQuery localeCompare query data)) =
           map (\<lambda>row. map (cell row) [0 ..< length (headers data)])
             (limitRows nq (orderRows localeCompare nq (headers data) (filterRows nq data))) \<and>
         columns (executeCSVQuery_server query data) = map Some (headers data) \<and>
         resultRows (executeCSVQuery_server query data) =
           map (\<lambda>row. map (cell row) [0 ..< length (headers data)])
             (limitRows nq (filterRows_server nq data)) \<and>
         ((\<forall>row \<in> set (rows data). length row = length (headers data)) \<longrightarrow>
            resultRows (fst (executeCSVQuery localeCompare query data)) =
              limitRows nq (orderRows localeCompare nq (headers data) (filterRows nq data)) \<and>
            resultRows (executeCSVQuery_server query data) =
              limitRows nq (filterRows_server nq data))"
proof -
  let ?all = "\<lambda>row. map (cell row) [0 ..< length (headers data)]"
  let ?client = "limitRows nq (orderRows localeCompare nq (headers data) (filterRows nq data))"
  let ?server = "limitRows nq (filterRows_server nq data)"
  have inc: "includesStr (trim (toLowerCase query)) ''select''"
    using assms(1,2) by simp
  have cols: "selectColumns (headers data) (trim (toLowerCase query)) =
      (map Some (headers data), [0 ..< length (headers data)])"
    using assms(1,3) by (simp add: selectColumns_no_match)
  have c1: "columns (fst (executeCSVQuery localeCompare query data)) = map Some (headers data)"
    by (simp add: executeCSVQuery_select [OF inc] cols)
  have r1: "resultRows (fst (executeCSVQuery localeCompare query data)) = map ?all ?client"
    by (simp add: executeCSVQuery_select [OF inc] cols assms(1))
  have c2: "columns (executeCSVQuery_server query data) = map Some (headers data)"
    by (simp add: executeCSVQuery_server_select [OF inc] cols)
  have r2: "resultRows (executeCSVQuery_server query data) = map ?all ?server"
    by (simp add: executeCSVQuery_server_select [OF inc] cols assms(1))
  have inv: "resultRows (fst (executeCSVQuery localeCompare query data)) = ?client \<and>
             resultRows (executeCSVQuery_server query data) = ?server"
    if w: "\<forall>row \<in> set (rows data). length row = length (headers data)"
  proof -
    have "\<forall>row \<in> set ?client. length row = length (headers data)"
      using w survivors_subset [of nq localeCompare "headers data" data] by blast
    then have a: "map ?all ?client = ?client" by (rule project_all_rows)
    have "\<forall>row \<in> set ?server. length row = length (headers data)"
      using w survivors_server_subset [of nq data] by blast
    then have b: "map ?all ?server = ?server" by (rule project_all_rows)
    from a b r1 r2 show ?thesis by simp
  qed
  from c1 r1 c2 r2 inv show ?thesis by blast
qed

theorem C10_no_select_from_pattern_witness:
  "trim (toLowerCase ''SELECT b WHERE a = 1'') = ''select b where a = 1'' \<and>
   includesStr ''select b where a = 1'' ''select'' \<and>
   regexMatch selectRe ''select b where a = 1'' = None \<and>
   columns (fst (executeCSVQuery compareCodeUnits ''SELECT b WHERE a = 1''
      \<lparr>headers = [''a'', ''b''], rows = [[''1'', ''x''], [''2'', ''y'']]\<rparr>)) = [Some ''a'', Some ''b''] \<and>
   resultRows (fst (executeCSVQuery compareCodeUnits ''SELECT b WHERE a = 1''
      \<lparr>headers = [''a'', ''b''], rows = [[''1'', ''x''], [''2'', ''y'']]\<rparr>)) = [[''1'', ''x'']] \<and>
   columns (executeCSVQuery_server ''SELECT b WHERE a = 1''
      \<lparr>headers = [''a'', ''b''], rows = [[''1'', ''x''], [''2'', ''y'']]\<rparr>) = [Some ''a'', Some ''b''] \<and>
   resultRows (executeCSVQuery_server ''SELECT b WHERE a = 1''
      \<lparr>headers = [''a'', ''b''], rows = [[''1'', ''x''], [''2'', ''y'']]\<rparr>) = [[''1'', ''x'']]"
proof -
  let ?D = "\<lparr>headers = [''a'', ''b''], rows = [[''1'', ''x''], [''2'', ''y'']]\<rparr>"
  let ?nq = "''select b where a = 1''"
  have h1: "?nq = trim (toLowerCase ''SELECT b WHERE a = 1'')"
    by code_simp
  have h2: "includesStr ?nq ''select''"
    by code_simp
  have h3: "regexMatch selectRe ?nq = None"
    by code_simp
  have s1: "limitRows ?nq (orderRows compareCodeUnits ?nq (headers ?D) (filterRows ?nq ?D)) = [[''1'', ''x'']]"
    by code_simp
  have s2: "limitRows ?nq (filterRows_server ?nq ?D) = [[''1'', ''x'']]"
    by code_simp
  from C10_no_select_from_pattern [OF h1 h2 h3, of compareCodeUnits ?D] h2 h3 s1 s2
  show ?thesis by (simp add: h1 [symmetric] cell_def)
qed

text \<open>
  C5. When the column list of \<open>SELECT ... FROM\<close> is not \<open>*\<close> and its \<open>k\<close>-th token
  matches no header (comparison ignoring case), both engines go on without failing: the
  token stands for index 0. Column \<open>k\<close> of the result is \<open>headers[0]\<close> and position \<open>k\<close>
  of every result row is the first cell of the surviving row it comes from.
\<close>

theorem C5_unresolved_column:
  assumes "nq = trim (toLowerCase query)"
      and "includesStr nq ''select''"
      and "regexMatch selectRe nq = Some m"
      and "capture m 1 = Some g"
      and "trim g \<noteq> ''*''"
      and "k < length (split (CHR '','') g)"
      and "headerIndex (headers data) (trim (split (CHR '','') g ! k)) = None"
  shows "length (columns (fst (executeCSVQuery localeCompare query data))) = length (split (CHR '','') g) \<and>
         columns (fst (executeCSVQuery localeCompare query data)) ! k = headerAt (headers data) 0 \<and>
         map (\<lambda>r. r ! k) (resultRows (fst (executeCSVQuery localeCompare query data))) =
           map (\<lambda>row. cell row 0)
             (limitRows nq (orderRows localeCompare nq (headers data) (filterRows nq data))) \<and>
         length (columns (executeCSVQuery_server query data)) = length (split (CHR '','') g) \<and>
         columns (executeCSVQuery_server query data) ! k = headerAt (headers data) 0 \<and>
         map (\<lambda>r. r ! k) (resultRows (executeCSVQuery_server query data)) =
           map (\<lambda>row. cell row 0) (limitRows nq (filterRows_server nq data))"
proof -
  let ?ix = "\<lambda>col. case headerIndex (headers data) col of Some index \<Rightarrow> index | None \<Rightarrow> 0"
  let ?cols = "map trim (split (CHR '','') g)"
  have inc: "includesStr (trim (toLowerCase query)) ''select''"
    using assms(1,2) by simp
  have sc: "selectColumns (headers data) (trim (toLowerCase query)) =
      (map (\<lambda>col. headerAt (headers data) (?ix col)) ?cols, map ?ix ?cols)"
    using selectColumns_named [OF assms(3,4,5)] assms(1) by simp
  have ixk: "map ?ix ?cols ! k = 0"
    using assms(6,7) by simp
  have prj: "map (\<lambda>r. r ! k) (map (\<lambda>row. map (cell row) (map ?ix ?cols)) rs) =
             map (\<lambda>row. cell row 0) rs" for rs
    using assms(6,7) by (induction rs) simp_all
  have a: "length (columns (fst (executeCSVQuery localeCompare query data))) = length (split (CHR '','') g)"
    by (simp add: executeCSVQuery_select [OF inc] sc)
  have b: "columns (fst (executeCSVQuery localeCompare query data)) ! k = headerAt (headers data) 0"
    using assms(6,7) by (simp add: executeCSVQuery_select [OF inc] sc)
  have c: "map (\<lambda>r. r ! k) (resultRows (fst (executeCSVQuery localeCompare query data))) =
           map (\<lambda>row. cell row 0)
             (limitRows nq (orderRows localeCompare nq (headers data) (filterRows nq data)))"
    using prj by (simp add: executeCSVQuery_select [OF inc] sc assms(1))
  have d: "length (columns (executeCSVQuery_server query data)) = length (split (CHR '','') g)"
    by (simp add: executeCSVQuery_server_select [OF inc] sc)
  have e: "columns (executeCSVQuery_server query data) ! k = headerAt (headers data) 0"
    using assms(6,7) by (simp add: executeCSVQuery_server_select [OF inc] sc)
  have f: "map (\<lambda>r. r ! k) (resultRows (executeCSVQuery_server query data)) =
           map (\<lambda>row. cell row 0) (limitRows nq (filterRows_server nq data))"
    using prj by (simp add: executeCSVQuery_server_select [OF inc] sc assms(1))
  from a b c d e f show ?thesis by blast
qed


theorem C5_unresolved_column_witness:
  "regexMatch selectRe (trim (toLowerCase ''SELECT b, nope FROM t'')) = Some [(1, ''b, nope'')] \<and>
   headerIndex [''a'', ''b''] (trim (split (CHR '','') ''b, nope'' ! 1)) = None \<and>
   columns (fst (executeCSVQuery compareCodeUnits ''SELECT b, nope FROM t''
      \<lparr>headers = [''a'', ''b''], rows = [[''1'', ''x''], [''2'', ''y'']]\<rparr>)) ! 1 = Some ''a'' \<and>
   map (\<lambda>r. r ! 1) (resultRows (fst (executeCSVQuery compareCodeUnits ''SELECT b, nope FROM t''
      \<lparr>headers = [''a'', ''b''], rows = [[''1'', ''x''], [''2'', ''y'']]\<rparr>))) = [''1'', ''2''] \<and>
   columns (executeCSVQuery_server ''SELECT b, nope FROM t''
      \<lparr>headers = [''a'', ''b''], rows = [[''1'', ''x''], [''2'', ''y'']]\<rparr>) ! 1 = Some ''a'' \<and>
   map (\<lambda>r. r ! 1) (resultRows (executeCSVQuery_server ''SELECT b, nope FROM t''
      \<lparr>headers = [''a'', ''b''], rows = [[''1'', ''x''], [''2'', ''y'']]\<rparr>)) = [''1'', ''2'']"
proof -
  let ?D = "\<lparr>headers = [''a'', ''b''], rows = [[''1'', ''x''], [''2'', ''y'']]\<rparr>"
  let ?nq = "''select b, nope from t''"
  have h1: "?nq = trim (toLowerCase ''SELECT b, nope FROM t'')"
    by code_simp
  have h2: "includesStr ?nq ''select''"
    by code_simp
  have h3: "regexMatch selectRe ?nq = Some [(1, ''b, nope'')]"
    by code_simp
  have h4: "capture [(1, ''b, nope'')] 1 = Some ''b, nope''"
    by (simp add: capture_def)
  have h5: "trim ''b, nope'' \<noteq> ''*''"
    by code_simp
  have h6: "1 < length (split (CHR '','') ''b, nope'')"
    by code_simp
  have h7: "headerIndex (headers ?D) (trim (split (CHR '','') ''b, nope'' ! 1)) = None"
    by code_simp
  have s1: "limitRows ?nq (orderRows compareCodeUnits ?nq (headers ?D) (filterRows ?nq ?D)) =
      [[''1'', ''x''], [''2'', ''y'']]"
    by code_simp
  have s2: "limitRows ?nq (filterRows_server ?nq ?D) = [[''1'', ''x''], [''2'', ''y'']]"
    by code_simp
  have c0: "cell [''1'', ''x''] 0 = ''1''" "cell [''2'', ''y''] 0 = ''2''" "headerAt [''a'', ''b''] 0 = Some ''a''"
    by (simp_all add: cell_def headerAt_def)
  from C5_unresolved_column [OF h1 h2 h3 h4 h5 h6 h7, of compareCodeUnits] h3 h7 s1 s2 c0
  show ?thesis by (simp add: h1 [symmetric])
qed

text \<open>
  C3 (as stated it fails). With a second \<open>=\<close> in the clause the engine's value token ends
  there: for \<open>name = a=b\<close> the value is \<open>a\<close>, so every row whose name contains \<open>a\<close> is
  kept, among them a row that does not contain \<open>a=b\<close>.
\<close>

theorem C3_value_token_stops_at_second_equals:
  "regexMatch whereRe (trim (toLowerCase ''SELECT * FROM t WHERE name = a=b'')) =
     Some [(1, ''name = a=b'')] \<and>
   resultRows (fst (executeCSVQuery compareCodeUnits ''SELECT * FROM t WHERE name = a=b''
      \<lparr>headers = [''name''], rows = [[''a''], [''a=b'']]\<rparr>)) = [[''a''], [''a=b'']] \<and>
   resultRows (executeCSVQuery_server ''SELECT * FROM t WHERE name = a=b''
      \<lparr>headers = [''name''], rows = [[''a''], [''a=b'']]\<rparr>) = [[''a''], [''a=b'']] \<and>
   \<not> fuzzyEquals_stated [''name''] ''name = a=b'' [''a'']"
proof -
  let ?D = "\<lparr>headers = [''name''], rows = [[''a''], [''a=b'']]\<rparr>"
  let ?nq = "''select * from t where name = a=b''"
  have nq: "trim (toLowerCase ''SELECT * FROM t WHERE name = a=b'') = ?nq"
    by code_simp
  have inc: "includesStr ?nq ''select''"
    by code_simp
  have whr: "regexMatch whereRe ?nq = Some [(1, ''name = a=b'')]"
    by code_simp
  have sel: "selectColumns [''name''] ?nq = ([Some ''name''], [0])"
    by code_simp
  have s1: "limitRows ?nq (orderRows compareCodeUnits ?nq [''name''] (filterRows ?nq ?D)) =
      [[''a''], [''a=b'']]"
    by code_simp
  have s2: "limitRows ?nq (filterRows_server ?nq ?D) = [[''a''], [''a=b'']]"
    by code_simp
  have st: "\<not> fuzzyEquals_stated [''name''] ''name = a=b'' [''a'']"
    by code_simp
  have c: "resultRows (fst (executeCSVQuery compareCodeUnits ''SELECT * FROM t WHERE name = a=b'' ?D)) =
      [[''a''], [''a=b'']]"
    using inc by (simp add: executeCSVQuery_select nq sel s1 cell_def)
  have d: "resultRows (executeCSVQuery_server ''SELECT * FROM t WHERE name = a=b'' ?D) =
      [[''a''], [''a=b'']]"
    using inc by (simp add: executeCSVQuery_server_select nq sel s2 cell_def)
  from whr c d st show ?thesis by (simp add: nq)
qed

text \<open>
  C3 (amended). When the WHERE clause contains \<open>=\<close>, the column token is the clause text
  before the first \<open>=\<close> and the value token is the text between the first \<open>=\<close> and the
  second one (all the text after the first when there is no second), both trimmed. When
  the column token is a header, ignoring case, at index \<open>i\<close>, the rows that go on to
  ordering, limiting and projection are exactly those rows of the table whose cell \<open>i\<close>,
  lower-cased, contains the lower-cased value token without its quote characters. The
  server's engine does the same on rows that have a cell \<open>i\<close>.
\<close>

theorem C3_fuzzy_equals:
  assumes "nq = trim (toLowerCase query)"
      and "includesStr nq ''select''"
      and "regexMatch whereRe nq = Some m"
      and "capture m 1 = Some whereClause"
      and "includesStr whereClause ''=''"
      and "column = trim (takeWhile (\<lambda>c. c \<noteq> CHR ''='') whereClause)"
      and "value = trim (takeWhile (\<lambda>c. c \<noteq> CHR ''='')
                          (drop 1 (dropWhile (\<lambda>c. c \<noteq> CHR ''='') whereClause)))"
      and "headerIndex (headers data) column = Some i"
      and "kept = filter (\<lambda>row. includesStr (toLowerCase (cell row i))
                                 (toLowerCase (removeChars [CHR 0x27, CHR 0x22] value))) (rows data)"
  shows "filterRows nq data = kept \<and>
         resultRows (fst (executeCSVQuery localeCompare query data)) =
           map (\<lambda>row. map (cell row) (snd (selectColumns (headers data) nq)))
             (limitRows nq (orderRows localeCompare nq (headers data) kept)) \<and>
         ((\<forall>row \<in> set (rows data). length row = length (headers data)) \<longrightarrow>
            filterRows_server nq data = kept \<and>
            resultRows (executeCSVQuery_server query data) =
              map (\<lambda>row. map (cell row) (snd (selectColumns (headers data) nq)))
                (limitRows nq kept))"
proof -
  have inc: "includesStr (trim (toLowerCase query)) ''select''"
    using assms(1,2) by simp
  have hi: "headerIndex (headers data) (trim (takeWhile (\<lambda>c. c \<noteq> CHR ''='') whereClause)) = Some i"
    using assms(6,8) by simp
  have "whereFilter (headers data) whereClause =
      (\<lambda>row. includesStr (toLowerCase (cell row i))
               (toLowerCase (removeChars [CHR 0x27, CHR 0x22] value)))"
    unfolding assms(7) by (rule ext) (rule whereFilter_equals [OF assms(5) hi])
  then have f: "filterRows nq data = kept"
    using assms(3,4) by (simp add: filterRows_def assms(9))
  have r: "resultRows (fst (executeCSVQuery localeCompare query data)) =
           map (\<lambda>row. map (cell row) (snd (selectColumns (headers data) nq)))
             (limitRows nq (orderRows localeCompare nq (headers data) kept))"
    using f by (simp add: executeCSVQuery_select [OF inc] assms(1))
  have s: "filterRows_server nq data = kept \<and>
           resultRows (executeCSVQuery_server query data) =
              map (\<lambda>row. map (cell row) (snd (selectColumns (headers data) nq)))
                (limitRows nq kept)"
    if w: "\<forall>row \<in> set (rows data). length row = length (headers data)"
  proof -
    have "\<forall>row \<in> set (rows data). i < length row"
      using w headerIndex_less [OF assms(8)] by simp
    then have "filter (whereFilter_server (headers data) whereClause) (rows data) = kept"
      using whereFilter_server_equals [OF assms(5) hi]
      by (simp add: assms(7,9) cong: filter_cong)
    then have fs: "filterRows_server nq data = kept"
      using assms(3,4) by (simp add: filterRows_server_def)
    then show ?thesis
      by (simp add: executeCSVQuery_server_select [OF inc] assms(1))
  qed
  from f r s show ?thesis by blast
qed

theorem C3_fuzzy_equals_witness:
  "resultRows (fst (executeCSVQuery compareCodeUnits
      ''SELECT * FROM survey_data WHERE Industry_name_NZSIOC = 'agriculture' LIMIT 100''
      \<lparr>headers = [''Year'', ''Industry_name_NZSIOC''],
       rows = [[''2024'', ''Agriculture, Forestry and Fishing''], [''2024'', ''Mining'']]\<rparr>)) =
     [[''2024'', ''Agriculture, Forestry and Fishing'']] \<and>
   resultRows (executeCSVQuery_server
      ''SELECT * FROM survey_data WHERE Industry_name_NZSIOC = 'agriculture' LIMIT 100''
      \<lparr>headers = [''Year'', ''Industry_name_NZSIOC''],
       rows = [[''2024'', ''Agriculture, Forestry and Fishing''], [''2024'', ''Mining'']]\<rparr>) =
     [[''2024'', ''Agriculture, Forestry and Fishing'']]"
proof -
  let ?q = "''SELECT * FROM survey_data WHERE Industry_name_NZSIOC = 'agriculture' LIMIT 100''"
  let ?D = "\<lparr>headers = [''Year'', ''Industry_name_NZSIOC''],
       rows = [[''2024'', ''Agriculture, Forestry and Fishing''], [''2024'', ''Mining'']]\<rparr>"
  let ?nq = "''select * from survey_data where industry_name_nzsioc = 'agriculture' limit 100''"
  let ?cl = "''industry_name_nzsioc = 'agriculture'' @ [CHR 0x27]"
  let ?v = "[CHR 0x27] @ ''agriculture'' @ [CHR 0x27]"
  let ?kept = "[[''2024'', ''Agriculture, Forestry and Fishing'']]"
  have h1: "?nq = trim (toLowerCase ?q)"
    by code_simp
  have h2: "includesStr ?nq ''select''"
    by code_simp
  have h3: "regexMatch whereRe ?nq = Some [(1, ?cl)]"
    by code_simp
  have h4: "capture [(1, ?cl)] 1 = Some ?cl"
    by (simp add: capture_def)
  have h5: "includesStr ?cl ''=''"
    by code_simp
  have h6: "''industry_name_nzsioc'' = trim (takeWhile (\<lambda>c. c \<noteq> CHR ''='') ?cl)"
    by code_simp
  have h7: "?v = trim (takeWhile (\<lambda>c. c \<noteq> CHR ''='') (drop 1 (dropWhile (\<lambda>c. c \<noteq> CHR ''='') ?cl)))"
    by code_simp
  have h8: "headerIndex (headers ?D) ''industry_name_nzsioc'' = Some 1"
    by code_simp
  have h9: "?kept = filter (\<lambda>row. includesStr (toLowerCase (cell row 1))
                                 (toLowerCase (removeChars [CHR 0x27, CHR 0x22] ?v))) (rows ?D)"
    by code_simp
  have w: "\<forall>row \<in> set (rows ?D). length row = length (headers ?D)"
    by simp
  have sel: "snd (selectColumns (headers ?D) ?nq) = [0, 1]"
    by code_simp
  have l1: "limitRows ?nq (orderRows compareCodeUnits ?nq (headers ?D) ?kept) = ?kept"
    by code_simp
  have l2: "limitRows ?nq ?kept = ?kept"
    by code_simp
  note t = C3_fuzzy_equals [OF h1 h2 h3 h4 h5 h6 h7 h8 h9, of compareCodeUnits]
  have a: "resultRows (fst (executeCSVQuery compareCodeUnits ?q ?D)) =
          map (\<lambda>row. map (cell row) (snd (selectColumns (headers ?D) ?nq)))
            (limitRows ?nq (orderRows compareCodeUnits ?nq (headers ?D) ?kept))"
    by (rule t [THEN conjunct2, THEN conjunct1])
  have b: "resultRows (executeCSVQuery_server ?q ?D) =
          map (\<lambda>row. map (cell row) (snd (selectColumns (headers ?D) ?nq))) (limitRows ?nq ?kept)"
    by (rule t [THEN conjunct2, THEN conjunct2, THEN mp, OF w, THEN conjunct2])
  have c: "map (\<lambda>row. map (cell row) [0, 1]) ?kept = ?kept"
    by (simp add: cell_def)
  from a b show ?thesis
    unfolding sel l1 l2 c by (rule conjI)
qed

text \<open>
  C1 (the code departs from it). With an ORDER BY clause and no WHERE clause the client's
  engine sorts the array \<open>data.rows\<close> itself: after the call the table holds its rows in
  sorted order.
\<close>

theorem C1_order_by_without_where_sorts_the_table:
  "executeCSVQuery compareCodeUnits ''SELECT * FROM t ORDER BY a''
      \<lparr>headers = [''a''], rows = [[''2''], [''1'']]\<rparr> =
     (\<lparr>columns = [Some ''a''], resultRows = [[''1''], [''2'']], rowCount = 2\<rparr>,
      \<lparr>headers = [''a''], rows = [[''1''], [''2'']]\<rparr>)"
proof -
  let ?D = "\<lparr>headers = [''a''], rows = [[''2''], [''1'']]\<rparr>"
  let ?nq = "''select * from t order by a''"
  have nq: "trim (toLowerCase ''SELECT * FROM t ORDER BY a'') = ?nq"
    by code_simp
  have inc: "includesStr ?nq ''select''"
    by code_simp
  have whr: "regexMatch whereRe ?nq = None"
    by code_simp
  have sel: "selectColumns [''a''] ?nq = ([Some ''a''], [0])"
    by code_simp
  have srt: "orderRows compareCodeUnits ?nq [''a''] (filterRows ?nq ?D) = [[''1''], [''2'']]"
    by code_simp
  have lim: "limitRows ?nq [[''1''], [''2'']] = [[''1''], [''2'']]"
    by code_simp
  show ?thesis
    using inc by (simp add: executeCSVQuery_select nq sel whr srt lim cell_def)
qed

text \<open>
  C8 (the server's code departs from it). The filter of the server's engine has no branch
  for \<open>like\<close>: a clause without \<open>=\<close> keeps every row. On the same query and table the
  client's engine keeps the one row whose cell contains the pattern.
\<close>

theorem C8_server_ignores_like:
  "resultRows (executeCSVQuery_server ''SELECT * FROM t WHERE name LIKE '%agri%' LIMIT 10''
      \<lparr>headers = [''name''], rows = [[''Agriculture''], [''Mining'']]\<rparr>) =
     [[''Agriculture''], [''Mining'']] \<and>
   resultRows (fst (executeCSVQuery compareCodeUnits ''SELECT * FROM t WHERE name LIKE '%agri%' LIMIT 10''
      \<lparr>headers = [''name''], rows = [[''Agriculture''], [''Mining'']]\<rparr>)) =
     [[''Agriculture'']]"
proof -
  let ?D = "\<lparr>headers = [''name''], rows = [[''Agriculture''], [''Mining'']]\<rparr>"
  let ?nq = "''select * from t where name like '%agri%' limit 10''"
  have nq: "trim (toLowerCase ''SELECT * FROM t WHERE name LIKE '%agri%' LIMIT 10'') = ?nq"
    by code_simp
  have inc: "includesStr ?nq ''select''"
    by code_simp
  have sel: "selectColumns [''name''] ?nq = ([Some ''name''], [0])"
    by code_simp
  have s1: "limitRows ?nq (orderRows compareCodeUnits ?nq [''name''] (filterRows ?nq ?D)) =
      [[''Agriculture'']]"
    by code_simp
  have s2: "limitRows ?nq (filterRows_server ?nq ?D) = [[''Agriculture''], [''Mining'']]"
    by code_simp
  have c: "resultRows (fst (executeCSVQuery compareCodeUnits
        ''SELECT * FROM t WHERE name LIKE '%agri%' LIMIT 10'' ?D)) = [[''Agriculture'']]"
    using inc by (simp add: executeCSVQuery_select nq sel s1 cell_def)
  have d: "resultRows (executeCSVQuery_server
        ''SELECT * FROM t WHERE name LIKE '%agri%' LIMIT 10'' ?D) = [[''Agriculture''], [''Mining'']]"
    using inc by (simp add: executeCSVQuery_server_select nq sel s2 cell_def)
  from c d show ?thesis by simp
qed

text \<open>
  C6 (as stated it fails). On a column that mixes numeric and non-numeric cells the
  comparison of the claim can run in a circle: \<open>0.4\<close> is before \<open>.5\<close> as a number, \<open>.5\<close>
  is before \<open>/\<close> and \<open>/\<close> is before \<open>0.4\<close> as strings. The result rows are a permutation of
  the three rows, and none of the six permutations is sorted; so the result is not
  sorted, whatever arrangement the host's \<open>sort\<close> returns.
\<close>

theorem C6_mixed_column_is_not_sorted:
  "\<not> sortedAsStated False 0
       (resultRows (fst (executeCSVQuery compareCodeUnits ''SELECT * FROM t ORDER BY v''
          \<lparr>headers = [''v''], rows = [[''/''], [''0.4''], [''.5'']]\<rparr>))) \<and>
   mset (resultRows (fst (executeCSVQuery compareCodeUnits ''SELECT * FROM t ORDER BY v''
          \<lparr>headers = [''v''], rows = [[''/''], [''0.4''], [''.5'']]\<rparr>))) =
     mset [[''/''], [''0.4''], [''.5'']] \<and>
   \<not> sortedAsStated False 0 [[''/''], [''0.4''], [''.5'']] \<and>
   \<not> sortedAsStated False 0 [[''/''], [''.5''], [''0.4'']] \<and>
   \<not> sortedAsStated False 0 [[''0.4''], [''/''], [''.5'']] \<and>
   \<not> sortedAsStated False 0 [[''0.4''], [''.5''], [''/'']] \<and>
   \<not> sortedAsStated False 0 [[''.5''], [''/''], [''0.4'']] \<and>
   \<not> sortedAsStated False 0 [[''.5''], [''0.4''], [''/'']]"
proof -
  let ?D = "\<lparr>headers = [''v''], rows = [[''/''], [''0.4''], [''.5'']]\<rparr>"
  let ?nq = "''select * from t order by v''"
  have nq: "trim (toLowerCase ''SELECT * FROM t ORDER BY v'') = ?nq"
    by code_simp
  have inc: "includesStr ?nq ''select''"
    by code_simp
  have sel: "selectColumns [''v''] ?nq = ([Some ''v''], [0])"
    by code_simp
  have srt: "limitRows ?nq (orderRows compareCodeUnits ?nq [''v''] (filterRows ?nq ?D)) =
      [[''/''], [''0.4''], [''.5'']]"
    by code_simp
  have res: "resultRows (fst (executeCSVQuery compareCodeUnits ''SELECT * FROM t ORDER BY v'' ?D)) =
      [[''/''], [''0.4''], [''.5'']]"
    using inc by (simp add: executeCSVQuery_select nq sel srt cell_def)
  have p1: "\<not> sortedAsStated False 0 [[''/''], [''0.4''], [''.5'']]"
    by code_simp
  have p2: "\<not> sortedAsStated False 0 [[''/''], [''.5''], [''0.4'']]"
    by code_simp
  have p3: "\<not> sortedAsStated False 0 [[''0.4''], [''/''], [''.5'']]"
    by code_simp
  have p4: "\<not> sortedAsStated False 0 [[''0.4''], [''.5''], [''/'']]"
    by code_simp
  have p5: "\<not> sortedAsStated False 0 [[''.5''], [''/''], [''0.4'']]"
    by code_simp
  have p6: "\<not> sortedAsStated False 0 [[''.5''], [''0.4''], [''/'']]"
    by code_simp
  show ?thesis
    unfolding res using p1 p2 p3 p4 p5 p6 by simp
qed

text \<open>
  C6 (amended). When the ORDER BY pattern matches and its column is a header (ignoring
  case) at index \<open>i\<close>, the client's engine sorts the filtered rows with the comparison of
  their cells at \<open>i\<close>: numeric when both cells parse as numbers, the host's string
  comparison otherwise, with the opposite sign exactly when the direction captured is
  \<open>desc\<close> (no direction means ascending). Whenever that comparison is consistent on the
  filtered rows, as it is on a column whose cells all parse as numbers, the result rows
  are the projection of the first rows, up to the limit, of the stable sorted arrangement
  of the filtered rows: a permutation of them in which every row is "not after" every
  later row and the rows that compare equal keep their order.
\<close>

theorem C6_order_by:
  assumes "nq = trim (toLowerCase query)"
      and "includesStr nq ''select''"
      and "regexMatch orderRe nq = Some m"
      and "capture m 1 = Some column"
      and "headerIndex (headers data) column = Some i"
      and "descending = (map_option toLowerCase (capture m 2) = Some ''desc'')"
      and "cmp = (\<lambda>a b. compareCells_stated localeCompare descending (cell a i) (cell b i))"
      and "sortedRows = sortBy cmp (filterRows nq data)"
  shows "(consistentComparator cmp (set (filterRows nq data)) \<longrightarrow>
            resultRows (fst (executeCSVQuery localeCompare query data)) =
              map (\<lambda>row. map (cell row) (snd (selectColumns (headers data) nq)))
                (limitRows nq sortedRows) \<and>
            mset sortedRows = mset (filterRows nq data) \<and>
            sorted_wrt (\<lambda>a b. cmp a b \<le> 0) sortedRows \<and>
            sorted_wrt (\<lambda>a b. cmp a b \<le> 0) (limitRows nq sortedRows) \<and>
            (\<forall>a \<in> set (filterRows nq data).
               filter (\<lambda>r. cmp r a = 0) sortedRows =
               filter (\<lambda>r. cmp r a = 0) (filterRows nq data))) \<and>
         ((\<forall>r \<in> set (filterRows nq data). parseFloat (cell r i) \<noteq> None) \<longrightarrow>
            consistentComparator cmp (set (filterRows nq data)))"
proof -
  have inc: "includesStr (trim (toLowerCase query)) ''select''"
    using assms(1,2) by simp
  have ord: "orderRows localeCompare nq (headers data) (filterRows nq data) = sortedRows"
    using orderRows_sorted [OF assms(3,4,5)] assms(6,7,8) by simp
  have a: "resultRows (fst (executeCSVQuery localeCompare query data)) =
           map (\<lambda>row. map (cell row) (snd (selectColumns (headers data) nq)))
             (limitRows nq sortedRows)"
    using ord by (simp add: executeCSVQuery_select [OF inc] assms(1))
  have b: "mset sortedRows = mset (filterRows nq data)"
    by (simp add: assms(8) mset_sortBy)
  have c: "sorted_wrt (\<lambda>a b. cmp a b \<le> 0) sortedRows"
    if "consistentComparator cmp (set (filterRows nq data))"
    unfolding assms(8)
    by (rule sorted_wrt_sortBy) (rule consistentComparator_consistentOn [OF that])
  have d: "\<forall>a \<in> set (filterRows nq data).
             filter (\<lambda>r. cmp r a = 0) sortedRows = filter (\<lambda>r. cmp r a = 0) (filterRows nq data)"
    if cc: "consistentComparator cmp (set (filterRows nq data))"
  proof
    fix a assume "a \<in> set (filterRows nq data)"
    from filter_sortBy [OF cc this subset_refl]
    show "filter (\<lambda>r. cmp r a = 0) sortedRows = filter (\<lambda>r. cmp r a = 0) (filterRows nq data)"
      unfolding assms(8) .
  qed
  have e: "consistentComparator cmp (set (filterRows nq data))"
    if n: "\<forall>r \<in> set (filterRows nq data). parseFloat (cell r i) \<noteq> None"
    unfolding assms(7) using n by (rule numeric_column_consistent)
  from a b c d e sorted_wrt_limitRows [of "\<lambda>a b. cmp a b \<le> 0" sortedRows nq]
  show ?thesis by blast
qed

theorem C6_order_by_witness:
  "resultRows (fst (executeCSVQuery compareCodeUnits ''SELECT * FROM t ORDER BY v''
      \<lparr>headers = [''v''], rows = [[''10''], [''2''], [''33'']]\<rparr>)) =
     [[''2''], [''10''], [''33'']] \<and>
   resultRows (fst (executeCSVQuery compareCodeUnits ''SELECT * FROM t ORDER BY v DESC''
      \<lparr>headers = [''v''], rows = [[''fig''], [''pear''], [''apple'']]\<rparr>)) =
     [[''pear''], [''fig''], [''apple'']]"
proof -
  let ?q = "''SELECT * FROM t ORDER BY v''"
  let ?D = "\<lparr>headers = [''v''], rows = [[''10''], [''2''], [''33'']]\<rparr>"
  let ?nq = "''select * from t order by v''"
  let ?m = "[(1, ''v'')]"
  let ?cmp = "\<lambda>a b. compareCells_stated compareCodeUnits False (cell a 0) (cell b 0)"
  let ?sorted = "[[''2''], [''10''], [''33'']]"
  have h1: "?nq = trim (toLowerCase ?q)"
    by code_simp
  have h2: "includesStr ?nq ''select''"
    by code_simp
  have h3: "regexMatch orderRe ?nq = Some ?m"
    by code_simp
  have h4: "capture ?m 1 = Some ''v''"
    by (simp add: capture_def)
  have h5: "headerIndex (headers ?D) ''v'' = Some 0"
    by code_simp
  have h6: "False = (map_option toLowerCase (capture ?m 2) = Some ''desc'')"
    by code_simp
  have h7: "?cmp = (\<lambda>a b. compareCells_stated compareCodeUnits False (cell a 0) (cell b 0))"
    by (rule refl)
  have flt: "filterRows ?nq ?D = [[''10''], [''2''], [''33'']]"
    by code_simp
  have h8: "?sorted = sortBy ?cmp (filterRows ?nq ?D)"
    unfolding flt by code_simp
  have num: "\<forall>r \<in> set (filterRows ?nq ?D). parseFloat (cell r 0) \<noteq> None"
    unfolding flt by code_simp
  have sel: "snd (selectColumns (headers ?D) ?nq) = [0]"
    by code_simp
  have lim: "limitRows ?nq ?sorted = ?sorted"
    by code_simp
  note t = C6_order_by [OF h1 h2 h3 h4 h5 h6 h7 h8]
  have cc: "consistentComparator ?cmp (set (filterRows ?nq ?D))"
    by (rule t [THEN conjunct2, THEN mp, OF num])
  have a: "resultRows (fst (executeCSVQuery compareCodeUnits ?q ?D)) =
          map (\<lambda>row. map (cell row) (snd (selectColumns (headers ?D) ?nq))) (limitRows ?nq ?sorted)"
    by (rule t [THEN conjunct1, THEN mp, OF cc, THEN conjunct1])
  have c: "map (\<lambda>row. map (cell row) [0]) ?sorted = ?sorted"
    by (simp add: cell_def)
  let ?q' = "''SELECT * FROM t ORDER BY v DESC''"
  let ?D' = "\<lparr>headers = [''v''], rows = [[''fig''], [''pear''], [''apple'']]\<rparr>"
  let ?nq' = "''select * from t order by v desc''"
  let ?m' = "[(1, ''v''), (2, ''desc'')]"
  let ?cmp' = "\<lambda>a b. compareCells_stated compareCodeUnits True (cell a 0) (cell b 0)"
  let ?sorted' = "[[''pear''], [''fig''], [''apple'']]"
  have k1: "?nq' = trim (toLowerCase ?q')"
    by code_simp
  have k2: "includesStr ?nq' ''select''"
    by code_simp
  have k3: "regexMatch orderRe ?nq' = Some ?m'"
    by code_simp
  have k4: "capture ?m' 1 = Some ''v''"
    by (simp add: capture_def)
  have k5: "headerIndex (headers ?D') ''v'' = Some 0"
    by code_simp
  have k6: "True = (map_option toLowerCase (capture ?m' 2) = Some ''desc'')"
    by code_simp
  have k7: "?cmp' = (\<lambda>a b. compareCells_stated compareCodeUnits True (cell a 0) (cell b 0))"
    by (rule refl)
  have flt': "filterRows ?nq' ?D' = [[''fig''], [''pear''], [''apple'']]"
    by code_simp
  have k8: "?sorted' = sortBy ?cmp' (filterRows ?nq' ?D')"
    unfolding flt' by code_simp
  have cc': "consistentComparator ?cmp' (set (filterRows ?nq' ?D'))"
    unfolding flt' by code_simp
  have sel': "snd (selectColumns (headers ?D') ?nq') = [0]"
    by code_simp
  have lim': "limitRows ?nq' ?sorted' = ?sorted'"
    by code_simp
  note t' = C6_order_by [OF k1 k2 k3 k4 k5 k6 k7 k8]
  have a': "resultRows (fst (executeCSVQuery compareCodeUnits ?q' ?D')) =
          map (\<lambda>row. map (cell row) (snd (selectColumns (headers ?D') ?nq'))) (limitRows ?nq' ?sorted')"
    by (rule t' [THEN conjunct1, THEN mp, OF cc', THEN conjunct1])
  have c': "map (\<lambda>row. map (cell row) [0]) ?sorted' = ?sorted'"
    by (simp add: cell_def)
  from a a' show ?thesis
    unfolding sel lim c sel' lim' c' by (rule conjI)
qed

end
